theory Spec2Isabelle
  imports Main "HOL-Library.Word"
begin

unbundle bit_operations_syntax

section \<open>Data model of \<^verbatim>\<open>ts_src/transaction.ts\<close>\<close>

text \<open>
  A \<^verbatim>\<open>Buffer\<close> is a list of bytes. The numeric fields of a transaction are the
  fixed-width integers of the wire format (\<^verbatim>\<open>version\<close> is the 32-bit pattern that
  \<^verbatim>\<open>readInt32\<close>/\<^verbatim>\<open>writeInt32\<close> move, read as two's complement by \<open>sint\<close>).
  Optional arguments and the optional \<^verbatim>\<open>issuance\<close> field are \<open>option\<close>s; the other
  fields marked optional in the interfaces are set by every constructor of the
  source (\<^verbatim>\<open>fromBuffer\<close>, \<^verbatim>\<open>addInput\<close>, \<^verbatim>\<open>addOutput\<close>, \<^verbatim>\<open>clone\<close>) and are modelled as present.
\<close>

type_synonym byte = "8 word"
type_synonym Buffer = "byte list"
type_synonym u32 = "32 word"

datatype error =
    Truncated            \<comment> \<open>a cursor operation ran past the end of its buffer\<close>
  | TrailingBytes        \<comment> \<open>\<^verbatim>\<open>Transaction has unexpected data\<close>\<close>
  | MissingIssuance      \<comment> \<open>\<^verbatim>\<open>Issuance flag has been set but the Issuance object is not defined or invalid\<close>\<close>
  | MismatchedPrevouts   \<comment> \<open>\<^verbatim>\<open>Must supply prevout script and value for all inputs\<close>\<close>
  | TypeError            \<comment> \<open>a failed \<^verbatim>\<open>typeforce\<close> check, or a property read on \<^verbatim>\<open>undefined\<close>/\<^verbatim>\<open>null\<close>\<close>
  | RangeError           \<comment> \<open>a number outside the range of the integer write it is given to\<close>

record Issuance =
  assetBlindingNonce :: Buffer
  assetEntropy :: Buffer
  assetAmount :: Buffer
  tokenAmount :: Buffer

record Output =
  script :: Buffer
  "value" :: Buffer
  asset :: Buffer
  nonce :: Buffer
  rangeProof :: Buffer
  surjectionProof :: Buffer

record Input =
  hash :: Buffer
  index :: u32
  script :: Buffer
  sequence :: u32
  witness :: "Buffer list"
  isPegin :: bool
  issuance :: "Issuance option"
  peginWitness :: "Buffer list"
  issuanceRangeProof :: Buffer
  inflationRangeProof :: Buffer

record Transaction =
  version :: "32 word"
  locktime :: u32
  flag :: byte
  ins :: "Input list"
  outs :: "Output list"

definition EMPTY_BUFFER :: Buffer where
  "EMPTY_BUFFER = []"

definition EMPTY_WITNESS :: "Buffer list" where
  "EMPTY_WITNESS = []"

definition ZERO :: Buffer where
  "ZERO = replicate 32 0"

definition ONE :: Buffer where
  "ONE = replicate 31 0 @ [1]"

definition OUTPOINT_ISSUANCE_FLAG :: u32 where
  "OUTPOINT_ISSUANCE_FLAG = push_bit 31 1"

definition OUTPOINT_PEGIN_FLAG :: u32 where
  "OUTPOINT_PEGIN_FLAG = push_bit 30 1"

definition OUTPOINT_INDEX_MASK :: u32 where
  "OUTPOINT_INDEX_MASK = 0x3fffffff"

definition MINUS_1 :: u32 where
  "MINUS_1 = 4294967295"

definition DEFAULT_SEQUENCE :: u32 where
  "DEFAULT_SEQUENCE = 0xffffffff"

definition SIGHASH_DEFAULT :: u32 where
  "SIGHASH_DEFAULT = 0x00"

definition SIGHASH_ALL :: u32 where
  "SIGHASH_ALL = 0x01"

definition SIGHASH_NONE :: u32 where
  "SIGHASH_NONE = 0x02"

definition SIGHASH_SINGLE :: u32 where
  "SIGHASH_SINGLE = 0x03"

definition SIGHASH_ANYONECANPAY :: u32 where
  "SIGHASH_ANYONECANPAY = 0x80"

definition SIGHASH_OUTPUT_MASK :: u32 where
  "SIGHASH_OUTPUT_MASK = 0x03"

definition SIGHASH_INPUT_MASK :: u32 where
  "SIGHASH_INPUT_MASK = 0x80"

definition ADVANCED_TRANSACTION_FLAG :: byte where
  "ADVANCED_TRANSACTION_FLAG = 0x01"

text \<open>
  JavaScript truthiness of an optional boolean argument: \<^verbatim>\<open>undefined\<close> and \<^verbatim>\<open>false\<close>
  are falsy.
\<close>

definition truthy :: "bool option \<Rightarrow> bool" where
  "truthy b = (case b of None \<Rightarrow> False | Some v \<Rightarrow> v)"

section \<open>Byte cursor (\<^verbatim>\<open>./bufferutils\<close>)\<close>

text \<open>
  Little-endian integers: \<open>le_bytes k n\<close> is the \<open>k\<close> low bytes of \<open>n\<close>, least
  significant first; \<open>le_nat\<close> reads such a string back.
\<close>

fun le_bytes :: "nat \<Rightarrow> nat \<Rightarrow> Buffer" where
  "le_bytes 0 n = []"
| "le_bytes (Suc k) n = word_of_nat (n mod 256) # le_bytes k (n div 256)"

fun le_nat :: "Buffer \<Rightarrow> nat" where
  "le_nat [] = 0"
| "le_nat (b # bs) = unat b + 256 * le_nat bs"

record BufferReader =
  buffer :: Buffer
  offset :: nat

text \<open>
  Modelled from the spec: the class \<^verbatim>\<open>BufferReader\<close> of \<^verbatim>\<open>./bufferutils\<close> is not
  among the sources. Section 4.1: a reader over a borrowed buffer with an advancing
  offset, whose operations all fail with \<open>Truncated\<close> if insufficient bytes remain;
  \<^verbatim>\<open>read_slice(n)\<close> returns the next \<open>n\<close> bytes.
\<close>

definition readSlice :: "nat \<Rightarrow> BufferReader \<Rightarrow> error + (Buffer \<times> BufferReader)" where
  "readSlice n r =
     (if BufferReader.offset r + n \<le> length (BufferReader.buffer r)
      then Inr (take n (drop (BufferReader.offset r) (BufferReader.buffer r)),
                r\<lparr>BufferReader.offset := BufferReader.offset r + n\<rparr>)
      else Inl Truncated)"

text \<open>Sequencing of reads: the first failure ends the function, as a thrown error does.\<close>

definition rbind ::
  "(BufferReader \<Rightarrow> error + ('a \<times> BufferReader)) \<Rightarrow> ('a \<Rightarrow> BufferReader \<Rightarrow> error + ('b \<times> BufferReader))
    \<Rightarrow> BufferReader \<Rightarrow> error + ('b \<times> BufferReader)" where
  "rbind m f r = (case m r of Inl e \<Rightarrow> Inl e | Inr (v, r') \<Rightarrow> f v r')"

definition rreturn :: "'a \<Rightarrow> BufferReader \<Rightarrow> error + ('a \<times> BufferReader)" where
  "rreturn v r = Inr (v, r)"

text \<open>A \<^verbatim>\<open>for\<close> loop that reads \<open>n\<close> items and pushes each onto an array.\<close>

fun rrepeat ::
  "nat \<Rightarrow> (BufferReader \<Rightarrow> error + ('a \<times> BufferReader)) \<Rightarrow> BufferReader \<Rightarrow> error + ('a list \<times> BufferReader)" where
  "rrepeat 0 m r = Inr ([], r)"
| "rrepeat (Suc n) m r =
     (case m r of Inl e \<Rightarrow> Inl e
      | Inr (x, r') \<Rightarrow> (case rrepeat n m r' of Inl e \<Rightarrow> Inl e | Inr (xs, r'') \<Rightarrow> Inr (x # xs, r'')))"

text \<open>A \<^verbatim>\<open>for\<close> loop over the items of an array that reads for each and updates it.\<close>

fun rmap ::
  "('a \<Rightarrow> BufferReader \<Rightarrow> error + ('b \<times> BufferReader)) \<Rightarrow> 'a list \<Rightarrow> BufferReader \<Rightarrow> error + ('b list \<times> BufferReader)" where
  "rmap f [] r = Inr ([], r)"
| "rmap f (x # xs) r =
     (case f x r of Inl e \<Rightarrow> Inl e
      | Inr (y, r') \<Rightarrow> (case rmap f xs r' of Inl e \<Rightarrow> Inl e | Inr (ys, r'') \<Rightarrow> Inr (y # ys, r'')))"

text \<open>
  Modelled from the spec: the fixed-width reads of the absent \<^verbatim>\<open>BufferReader\<close>
  (\<^verbatim>\<open>read_uint8\<close>, \<^verbatim>\<open>read_int32_le\<close>, \<^verbatim>\<open>read_uint32_le\<close>), all little-endian.
\<close>

definition readUInt8 :: "BufferReader \<Rightarrow> error + (byte \<times> BufferReader)" where
  "readUInt8 = rbind (readSlice 1) (\<lambda>bs. rreturn (word_of_nat (le_nat bs)))"

definition readUInt32 :: "BufferReader \<Rightarrow> error + (u32 \<times> BufferReader)" where
  "readUInt32 = rbind (readSlice 4) (\<lambda>bs. rreturn (word_of_nat (le_nat bs)))"

definition readInt32 :: "BufferReader \<Rightarrow> error + (32 word \<times> BufferReader)" where
  "readInt32 = rbind (readSlice 4) (\<lambda>bs. rreturn (word_of_nat (le_nat bs)))"

text \<open>
  Modelled from the spec: \<^verbatim>\<open>read_varint\<close> of the absent \<^verbatim>\<open>BufferReader\<close>,
  Bitcoin-style compact-size: the first byte \<open>b\<close> determines the width (\<open>b < 0xFD\<close> is
  the value; \<open>0xFD\<close>: 2 bytes, \<open>0xFE\<close>: 4 bytes, \<open>0xFF\<close>: 8 bytes, little-endian).
  Any encoding is tolerated on read.
\<close>

definition readVarInt :: "BufferReader \<Rightarrow> error + (nat \<times> BufferReader)" where
  "readVarInt =
     rbind readUInt8 (\<lambda>b.
       if b < 0xFD then rreturn (unat b)
       else if b = 0xFD then rbind (readSlice 2) (\<lambda>bs. rreturn (le_nat bs))
       else if b = 0xFE then rbind (readSlice 4) (\<lambda>bs. rreturn (le_nat bs))
       else rbind (readSlice 8) (\<lambda>bs. rreturn (le_nat bs)))"

text \<open>Modelled from the spec: \<^verbatim>\<open>read_varslice\<close>, a varint length, then that many bytes.\<close>

definition readVarSlice :: "BufferReader \<Rightarrow> error + (Buffer \<times> BufferReader)" where
  "readVarSlice = rbind readVarInt (\<lambda>n. readSlice n)"

text \<open>
  Modelled from the spec: the confidential field reads of the absent \<^verbatim>\<open>BufferReader\<close>
  (section 4.2). The fields are tag-prefixed and the read returns the entire field
  including its prefix byte. Asset: both rows of the table give 33 bytes in total.
  Value: prefix \<open>0x01\<close> gives 9 bytes in total, an absent slot is the single byte
  \<open>0x00\<close>, else 33 bytes in total. Nonce: prefix \<open>0x00\<close> gives 1 byte in total, else 33.
\<close>

definition readConfidentialAsset :: "BufferReader \<Rightarrow> error + (Buffer \<times> BufferReader)" where
  "readConfidentialAsset =
     rbind readUInt8 (\<lambda>b. rbind (readSlice 32) (\<lambda>bs. rreturn (b # bs)))"

definition readConfidentialValue :: "BufferReader \<Rightarrow> error + (Buffer \<times> BufferReader)" where
  "readConfidentialValue =
     rbind readUInt8 (\<lambda>b.
       if b = 0x01 then rbind (readSlice 8) (\<lambda>bs. rreturn (b # bs))
       else if b = 0x00 then rreturn [b]
       else rbind (readSlice 32) (\<lambda>bs. rreturn (b # bs)))"

definition readConfidentialNonce :: "BufferReader \<Rightarrow> error + (Buffer \<times> BufferReader)" where
  "readConfidentialNonce =
     rbind readUInt8 (\<lambda>b.
       if b = 0x00 then rreturn [b]
       else rbind (readSlice 32) (\<lambda>bs. rreturn (b # bs)))"

text \<open>
  Modelled from the spec: \<^verbatim>\<open>read_issuance\<close>, the issuance record: 32-byte
  \<^verbatim>\<open>asset_blinding_nonce\<close>, 32-byte \<^verbatim>\<open>asset_entropy\<close>, then two confidential values.
\<close>

definition readIssuance :: "BufferReader \<Rightarrow> error + (Issuance \<times> BufferReader)" where
  "readIssuance =
     rbind (readSlice 32) (\<lambda>n.
     rbind (readSlice 32) (\<lambda>e.
     rbind readConfidentialValue (\<lambda>a.
     rbind readConfidentialValue (\<lambda>t.
     rreturn \<lparr>assetBlindingNonce = n, assetEntropy = e, assetAmount = a, tokenAmount = t\<rparr>))))"

text \<open>
  Modelled from the spec: \<^verbatim>\<open>read_confidential_in_fields\<close> (\<^verbatim>\<open>issuance_range_proof\<close>,
  \<^verbatim>\<open>inflation_range_proof\<close>, \<^verbatim>\<open>witness[]\<close> as a varint count then count varslices,
  \<^verbatim>\<open>pegin_witness[]\<close> the same) and \<^verbatim>\<open>read_confidential_out_fields\<close> (two varslices,
  \<^verbatim>\<open>surjection_proof\<close> then \<^verbatim>\<open>range_proof\<close>). The results are returned in the order
  in which \<^verbatim>\<open>fromBuffer\<close> destructures them: witness, peginWitness,
  issuanceRangeProof, inflationRangeProof; and rangeProof, surjectionProof.
\<close>

definition readVector :: "BufferReader \<Rightarrow> error + (Buffer list \<times> BufferReader)" where
  "readVector = rbind readVarInt (\<lambda>n. rrepeat n readVarSlice)"

definition readConfidentialInFields ::
  "BufferReader \<Rightarrow> error + ((Buffer list \<times> Buffer list \<times> Buffer \<times> Buffer) \<times> BufferReader)" where
  "readConfidentialInFields =
     rbind readVarSlice (\<lambda>issuanceRangeProof.
     rbind readVarSlice (\<lambda>inflationRangeProof.
     rbind readVector (\<lambda>witness.
     rbind readVector (\<lambda>peginWitness.
     rreturn (witness, peginWitness, issuanceRangeProof, inflationRangeProof)))))"

definition readConfidentialOutFields ::
  "BufferReader \<Rightarrow> error + ((Buffer \<times> Buffer) \<times> BufferReader)" where
  "readConfidentialOutFields =
     rbind readVarSlice (\<lambda>surjectionProof.
     rbind readVarSlice (\<lambda>rangeProof.
     rreturn (rangeProof, surjectionProof)))"

record BufferWriter =
  buffer :: Buffer
  offset :: nat

text \<open>
  Modelled from the spec: the class \<^verbatim>\<open>BufferWriter\<close> of \<^verbatim>\<open>./bufferutils\<close> is not
  among the sources. Section 4.1: a writer that wraps a caller-supplied buffer at a
  given offset, with operations that mirror the reader's: a write stores its bytes
  at the offset and advances it, and fails if insufficient room remains.
\<close>

definition writeSlice :: "Buffer \<Rightarrow> BufferWriter \<Rightarrow> error + BufferWriter" where
  "writeSlice bs w =
     (if BufferWriter.offset w + length bs \<le> length (BufferWriter.buffer w)
      then Inr \<lparr>BufferWriter.buffer =
                  take (BufferWriter.offset w) (BufferWriter.buffer w) @ bs @
                  drop (BufferWriter.offset w + length bs) (BufferWriter.buffer w),
                BufferWriter.offset = BufferWriter.offset w + length bs\<rparr>
      else Inl Truncated)"

text \<open>A block of statements on one writer; the first failure ends it.\<close>

fun wseq :: "(BufferWriter \<Rightarrow> error + BufferWriter) list \<Rightarrow> BufferWriter \<Rightarrow> error + BufferWriter" where
  "wseq [] w = Inr w"
| "wseq (f # fs) w = (case f w of Inl e \<Rightarrow> Inl e | Inr w' \<Rightarrow> wseq fs w')"

text \<open>\<^verbatim>\<open>xs.forEach(f)\<close> where \<open>f\<close> writes.\<close>

fun wforEach ::
  "('a \<Rightarrow> BufferWriter \<Rightarrow> error + BufferWriter) \<Rightarrow> 'a list \<Rightarrow> BufferWriter \<Rightarrow> error + BufferWriter" where
  "wforEach f [] w = Inr w"
| "wforEach f (x # xs) w = (case f x w of Inl e \<Rightarrow> Inl e | Inr w' \<Rightarrow> wforEach f xs w')"

text \<open>
  Modelled from the spec: the fixed-width writes of the absent \<^verbatim>\<open>BufferWriter\<close>,
  little-endian, mirroring the reads.
\<close>

definition writeUInt8 :: "byte \<Rightarrow> BufferWriter \<Rightarrow> error + BufferWriter" where
  "writeUInt8 v = writeSlice (le_bytes 1 (unat v))"

definition writeUInt32 :: "u32 \<Rightarrow> BufferWriter \<Rightarrow> error + BufferWriter" where
  "writeUInt32 v = writeSlice (le_bytes 4 (unat v))"

definition writeInt32 :: "32 word \<Rightarrow> BufferWriter \<Rightarrow> error + BufferWriter" where
  "writeInt32 v = writeSlice (le_bytes 4 (unat v))"

definition writeUInt64 :: "64 word \<Rightarrow> BufferWriter \<Rightarrow> error + BufferWriter" where
  "writeUInt64 v = writeSlice (le_bytes 8 (unat v))"

text \<open>
  Modelled from the spec: \<^verbatim>\<open>varuint.encodingLength\<close>, \<^verbatim>\<open>writeVarInt\<close>, \<^verbatim>\<open>varSliceSize\<close>
  and \<^verbatim>\<open>writeVarSlice\<close> of \<^verbatim>\<open>./bufferutils\<close>. The varint encoding length is 1 for
  \<open>n < 0xFD\<close>, else 3, 5 or 9; a write emits the minimal form. A varslice is a byte
  string prefixed by its length as a varint. (The lengths written are lengths of
  JavaScript arrays and buffers, which are below \<open>2 ^ 64\<close>.)
\<close>

definition encodingLength :: "nat \<Rightarrow> nat" where
  "encodingLength n = (if n < 0xFD then 1 else if n \<le> 0xFFFF then 3 else if n \<le> 0xFFFFFFFF then 5 else 9)"

definition varint :: "nat \<Rightarrow> Buffer" where
  "varint n =
     (if n < 0xFD then le_bytes 1 n
      else if n \<le> 0xFFFF then 0xFD # le_bytes 2 n
      else if n \<le> 0xFFFFFFFF then 0xFE # le_bytes 4 n
      else 0xFF # le_bytes 8 n)"

definition writeVarInt :: "nat \<Rightarrow> BufferWriter \<Rightarrow> error + BufferWriter" where
  "writeVarInt n = writeSlice (varint n)"

definition varSliceSize :: "Buffer \<Rightarrow> nat" where
  "varSliceSize someScript = encodingLength (length someScript) + length someScript"

definition writeVarSlice :: "Buffer \<Rightarrow> BufferWriter \<Rightarrow> error + BufferWriter" where
  "writeVarSlice bs = wseq [writeVarInt (length bs), writeSlice bs]"

text \<open>
  Modelled from the spec: \<^verbatim>\<open>writeConfidentialInFields\<close> and
  \<^verbatim>\<open>writeConfidentialOutFields\<close> of the absent \<^verbatim>\<open>BufferWriter\<close>, mirroring the reads.
\<close>

definition writeVector :: "Buffer list \<Rightarrow> BufferWriter \<Rightarrow> error + BufferWriter" where
  "writeVector vector = wseq [writeVarInt (length vector), wforEach writeVarSlice vector]"

definition writeConfidentialInFields :: "Input \<Rightarrow> BufferWriter \<Rightarrow> error + BufferWriter" where
  "writeConfidentialInFields input =
     wseq [writeVarSlice (issuanceRangeProof input),
           writeVarSlice (inflationRangeProof input),
           writeVector (witness input),
           writeVector (peginWitness input)]"

definition writeConfidentialOutFields :: "Output \<Rightarrow> BufferWriter \<Rightarrow> error + BufferWriter" where
  "writeConfidentialOutFields output =
     wseq [writeVarSlice (surjectionProof output),
           writeVarSlice (rangeProof output)]"

text \<open>
  \<^verbatim>\<open>Buffer.allocUnsafe(n)\<close> returns \<open>n\<close> bytes of whatever the memory held: \<open>junk\<close> is
  that former content, unconstrained. \<^verbatim>\<open>buffer.slice(start, end)\<close> shares the bytes
  from \<open>start\<close> up to \<open>end\<close>.
\<close>

definition allocUnsafe :: "Buffer \<Rightarrow> nat \<Rightarrow> Buffer" where
  "allocUnsafe junk n = take n (junk @ replicate n 0)"

definition Buffer_slice :: "Buffer \<Rightarrow> nat \<Rightarrow> nat \<Rightarrow> Buffer" where
  "Buffer_slice b start end = take (end - start) (drop start b)"

section \<open>The class \<^verbatim>\<open>Transaction\<close>\<close>

subsection \<open>\<^verbatim>\<open>hasWitnesses\<close> and the size oracle\<close>

definition hasWitnesses :: "Transaction \<Rightarrow> bool" where
  "hasWitnesses t =
     (flag t = 1 \<or>
      list_ex (\<lambda>x. length (witness x) \<noteq> 0) (ins t) \<or>
      list_ex (\<lambda>x. length (rangeProof x) \<noteq> 0 \<and> length (surjectionProof x) \<noteq> 0) (outs t))"

text \<open>
  \<^verbatim>\<open>__byteLength(_ALLOW_WITNESS, forSignature)\<close>. Each \<^verbatim>\<open>for\<close> loop is a \<open>fold\<close> over
  the array with the running \<^verbatim>\<open>size\<close>.
\<close>

definition byteLength_priv :: "Transaction \<Rightarrow> bool option \<Rightarrow> bool option \<Rightarrow> nat" where
  "byteLength_priv t ALLOW_WITNESS forSignature =
     (let extraByte = (if truthy forSignature then 0 else 1);
          sz = 8 + extraByte + encodingLength (length (ins t)) + encodingLength (length (outs t));
          sz = fold (\<lambda>txIn sz.
                 (let sz = sz + (40 + varSliceSize (Input.script txIn))
                  in case issuance txIn of
                       None \<Rightarrow> sz
                     | Some i \<Rightarrow> sz + (64 + length (assetAmount i) + length (tokenAmount i))))
               (ins t) sz;
          sz = fold (\<lambda>txOut sz.
                 sz + (length (asset txOut) + length (Output.value txOut) + length (nonce txOut) +
                       varSliceSize (Output.script txOut)))
               (outs t) sz
      in if truthy ALLOW_WITNESS \<and> hasWitnesses t
         then
           (let sz = fold (\<lambda>txIn sz.
                  (let sz = sz + varSliceSize (issuanceRangeProof txIn);
                       sz = sz + varSliceSize (inflationRangeProof txIn);
                       sz = sz + encodingLength (length (witness txIn));
                       sz = fold (\<lambda>wit sz. sz + varSliceSize wit) (witness txIn) sz;
                       sz = sz + encodingLength (length (peginWitness txIn))
                   in fold (\<lambda>wit sz. sz + varSliceSize wit) (peginWitness txIn) sz))
                  (ins t) sz
            in fold (\<lambda>txOut sz.
                  (let sz = sz + varSliceSize (surjectionProof txOut)
                   in sz + varSliceSize (rangeProof txOut)))
                 (outs t) sz)
         else sz)"

text \<open>
  The public \<^verbatim>\<open>byteLength(_ALLOW_WITNESS?)\<close> passes \<^verbatim>\<open>_ALLOW_WITNESS || true\<close>: the
  argument when it is truthy, else \<^verbatim>\<open>true\<close>.
\<close>

definition byteLength :: "Transaction \<Rightarrow> bool option \<Rightarrow> nat" where
  "byteLength t ALLOW_WITNESS =
     byteLength_priv t (if truthy ALLOW_WITNESS then ALLOW_WITNESS else Some True) None"

subsection \<open>Serialization: \<^verbatim>\<open>__toBuffer\<close>\<close>

text \<open>The callback of \<^verbatim>\<open>this.ins.forEach\<close> in \<^verbatim>\<open>__toBuffer\<close> (lines 927 to 947).\<close>

definition toBuffer_txIn :: "Input \<Rightarrow> BufferWriter \<Rightarrow> error + BufferWriter" where
  "toBuffer_txIn txIn =
     (let prevIndex = index txIn;
          prevIndex = (if issuance txIn \<noteq> None then prevIndex OR OUTPOINT_ISSUANCE_FLAG else prevIndex);
          prevIndex = (if isPegin txIn then prevIndex OR OUTPOINT_PEGIN_FLAG else prevIndex)
      in wseq [
           writeSlice (hash txIn),
           writeUInt32 prevIndex,
           writeVarSlice (Input.script txIn),
           writeUInt32 (sequence txIn),
           (case issuance txIn of
              None \<Rightarrow> Inr
            | Some i \<Rightarrow>
                wseq [writeSlice (assetBlindingNonce i),
                      writeSlice (assetEntropy i),
                      writeSlice (assetAmount i),
                      writeSlice (tokenAmount i)])])"

text \<open>
  The callback of \<^verbatim>\<open>this.outs.forEach\<close> (lines 950 to 960); \<open>sub\<close> is
  \<^verbatim>\<open>forSignature && hasWitnesses\<close>, and \<^verbatim>\<open>Buffer.alloc(1)\<close> is one zero byte.
\<close>

definition toBuffer_txOut :: "bool \<Rightarrow> Output \<Rightarrow> BufferWriter \<Rightarrow> error + BufferWriter" where
  "toBuffer_txOut sub txOut =
     (let val = (if sub then replicate 1 0 else Output.value txOut)
      in wseq [
           writeSlice (asset txOut),
           writeSlice val,
           writeSlice (nonce txOut),
           (if sub then writeUInt64 0 else Inr),
           writeVarSlice (Output.script txOut)])"

text \<open>The writes of \<^verbatim>\<open>__toBuffer\<close>, in order, on its \<^verbatim>\<open>bufferWriter\<close> (lines 913 to 971).\<close>

definition toBuffer_writes ::
  "Transaction \<Rightarrow> bool option \<Rightarrow> bool option \<Rightarrow> bool option \<Rightarrow> BufferWriter \<Rightarrow> error + BufferWriter" where
  "toBuffer_writes t ALLOW_WITNESS forceZeroFlag forSignature =
     (let hasWit = (truthy ALLOW_WITNESS \<and> hasWitnesses t)
      in wseq [
           writeInt32 (version t),
           (if \<not> truthy forSignature
            then writeUInt8 (if hasWit \<and> \<not> truthy forceZeroFlag then 0 OR ADVANCED_TRANSACTION_FLAG else 0)
            else Inr),
           writeVarInt (length (ins t)),
           wforEach toBuffer_txIn (ins t),
           writeVarInt (length (outs t)),
           wforEach (toBuffer_txOut (truthy forSignature \<and> hasWit)) (outs t),
           writeUInt32 (locktime t),
           (if \<not> truthy forSignature \<and> hasWit
            then wseq [wforEach writeConfidentialInFields (ins t),
                       wforEach writeConfidentialOutFields (outs t)]
            else Inr)])"

text \<open>
  \<^verbatim>\<open>__toBuffer(buffer?, initialOffset?, _ALLOW_WITNESS?, forceZeroFlag?, forSignature?)\<close>.
  \<open>toBuffer_writer\<close> is the writer after the last write: its buffer is the caller's
  buffer as the call leaves it (the writes are in place), or the one allocated here.
  \<open>toBuffer_priv\<close> is the value returned.
\<close>

definition toBuffer_writer ::
  "Buffer \<Rightarrow> Buffer option \<Rightarrow> nat option \<Rightarrow> bool option \<Rightarrow> bool option \<Rightarrow> bool option \<Rightarrow> Transaction
    \<Rightarrow> error + BufferWriter" where
  "toBuffer_writer junk buf initialOffset ALLOW_WITNESS forceZeroFlag forSignature t =
     (let buf = (case buf of
                   None \<Rightarrow> allocUnsafe junk (byteLength_priv t ALLOW_WITNESS forSignature)
                 | Some b \<Rightarrow> b);
          bufferWriter = \<lparr>BufferWriter.buffer = buf,
                          BufferWriter.offset = (case initialOffset of None \<Rightarrow> 0 | Some n \<Rightarrow> n)\<rparr>
      in toBuffer_writes t ALLOW_WITNESS forceZeroFlag forSignature bufferWriter)"

definition toBuffer_priv ::
  "Buffer \<Rightarrow> Buffer option \<Rightarrow> nat option \<Rightarrow> bool option \<Rightarrow> bool option \<Rightarrow> bool option \<Rightarrow> Transaction
    \<Rightarrow> error + Buffer" where
  "toBuffer_priv junk buf initialOffset ALLOW_WITNESS forceZeroFlag forSignature t =
     (case toBuffer_writer junk buf initialOffset ALLOW_WITNESS forceZeroFlag forSignature t of
        Inl e \<Rightarrow> Inl e
      | Inr w \<Rightarrow>
          (case initialOffset of
             Some i \<Rightarrow> Inr (Buffer_slice (BufferWriter.buffer w) i (BufferWriter.offset w))
           | None \<Rightarrow> Inr (BufferWriter.buffer w)))"

definition toBuffer :: "Buffer \<Rightarrow> Buffer option \<Rightarrow> nat option \<Rightarrow> Transaction \<Rightarrow> error + Buffer" where
  "toBuffer junk buf initialOffset t =
     toBuffer_priv junk buf initialOffset (Some True) (Some False) None t"

subsection \<open>Deserialization: \<^verbatim>\<open>fromBuffer\<close>\<close>

text \<open>The body of the first loop of \<^verbatim>\<open>fromBuffer\<close> (lines 86 to 114).\<close>

definition fromBuffer_txIn :: "BufferReader \<Rightarrow> error + (Input \<times> BufferReader)" where
  "fromBuffer_txIn =
     rbind (readSlice 32) (\<lambda>inHash.
     rbind readUInt32 (\<lambda>inIndex.
     rbind readVarSlice (\<lambda>inScript.
     rbind readUInt32 (\<lambda>inSequence.
     rbind (if inIndex \<noteq> MINUS_1
            then rbind (if inIndex AND OUTPOINT_ISSUANCE_FLAG \<noteq> 0
                        then rbind readIssuance (\<lambda>i. rreturn (Some i))
                        else rreturn None) (\<lambda>inIssuance.
                 rreturn (inIssuance, inIndex AND OUTPOINT_PEGIN_FLAG \<noteq> 0, inIndex AND OUTPOINT_INDEX_MASK))
            else rreturn (None, False, inIndex)) (\<lambda>(inIssuance, inIsPegin, inIndex).
     rreturn \<lparr>hash = inHash,
              index = inIndex,
              script = inScript,
              sequence = inSequence,
              witness = EMPTY_WITNESS,
              isPegin = inIsPegin,
              issuance = inIssuance,
              peginWitness = EMPTY_WITNESS,
              issuanceRangeProof = EMPTY_BUFFER,
              inflationRangeProof = EMPTY_BUFFER\<rparr>)))))"

text \<open>The body of the second loop (lines 118 to 130).\<close>

definition fromBuffer_txOut :: "BufferReader \<Rightarrow> error + (Output \<times> BufferReader)" where
  "fromBuffer_txOut =
     rbind readConfidentialAsset (\<lambda>asset.
     rbind readConfidentialValue (\<lambda>val.
     rbind readConfidentialNonce (\<lambda>nonce.
     rbind readVarSlice (\<lambda>script.
     rreturn \<lparr>Output.script = script,
              value = val,
              asset = asset,
              nonce = nonce,
              rangeProof = EMPTY_BUFFER,
              surjectionProof = EMPTY_BUFFER\<rparr>))))"

text \<open>The bodies of the two loops over the witness suffix (lines 136 to 152).\<close>

definition fromBuffer_inFields :: "Input \<Rightarrow> BufferReader \<Rightarrow> error + (Input \<times> BufferReader)" where
  "fromBuffer_inFields txIn =
     rbind readConfidentialInFields (\<lambda>(witness, peginWitness, issuanceRangeProof, inflationRangeProof).
     rreturn (txIn\<lparr>witness := witness,
                   peginWitness := peginWitness,
                   issuanceRangeProof := issuanceRangeProof,
                   inflationRangeProof := inflationRangeProof\<rparr>))"

definition fromBuffer_outFields :: "Output \<Rightarrow> BufferReader \<Rightarrow> error + (Output \<times> BufferReader)" where
  "fromBuffer_outFields txOut =
     rbind readConfidentialOutFields (\<lambda>(rangeProof, surjectionProof).
     rreturn (txOut\<lparr>rangeProof := rangeProof, surjectionProof := surjectionProof\<rparr>))"

text \<open>The reads of \<^verbatim>\<open>fromBuffer\<close>, in order, on its \<^verbatim>\<open>bufferReader\<close> (lines 76 to 154).\<close>

definition fromBuffer_reads :: "BufferReader \<Rightarrow> error + (Transaction \<times> BufferReader)" where
  "fromBuffer_reads =
     rbind readInt32 (\<lambda>version.
     rbind readUInt8 (\<lambda>flag.
     (let hasWitnesses = (flag AND ADVANCED_TRANSACTION_FLAG \<noteq> 0) in
     rbind readVarInt (\<lambda>vinLen.
     rbind (rrepeat vinLen fromBuffer_txIn) (\<lambda>ins.
     rbind readVarInt (\<lambda>voutLen.
     rbind (rrepeat voutLen fromBuffer_txOut) (\<lambda>outs.
     rbind readUInt32 (\<lambda>locktime.
     rbind (if hasWitnesses
            then rbind (rmap fromBuffer_inFields ins) (\<lambda>ins.
                 rbind (rmap fromBuffer_outFields outs) (\<lambda>outs.
                 rreturn (ins, outs)))
            else rreturn (ins, outs)) (\<lambda>(ins, outs).
     rreturn \<lparr>version = version, locktime = locktime, flag = flag, ins = ins, outs = outs\<rparr>)))))))))"

definition fromBuffer :: "Buffer \<Rightarrow> bool option \<Rightarrow> error + Transaction" where
  "fromBuffer buf NO_STRICT =
     (case fromBuffer_reads \<lparr>BufferReader.buffer = buf, BufferReader.offset = 0\<rparr> of
        Inl e \<Rightarrow> Inl e
      | Inr (tx, bufferReader) \<Rightarrow>
          if truthy NO_STRICT then Inr tx
          else if BufferReader.offset bufferReader \<noteq> length buf then Inl TrailingBytes
          else Inr tx)"

subsection \<open>Coinbase test, \<^verbatim>\<open>addInput\<close> and \<^verbatim>\<open>getHash\<close>\<close>

text \<open>
  Modelled from the spec: the \<^verbatim>\<open>typeforce\<close> types of \<^verbatim>\<open>./types\<close> are not among the
  sources. \<^verbatim>\<open>Hash256bit\<close> is 32 opaque bytes; the issuance amounts checked by
  \<^verbatim>\<open>validateIssuance\<close> (\<^verbatim>\<open>ConfidentialValue\<close>, \<^verbatim>\<open>ConfidentialCommitment\<close>, \<^verbatim>\<open>BufferOne\<close>)
  are confidential values of 9, 33 or 1 bytes.
\<close>

definition Hash256bit :: "Buffer \<Rightarrow> bool" where
  "Hash256bit b = (length b = 32)"

definition ConfidentialValue :: "Buffer \<Rightarrow> bool" where
  "ConfidentialValue b = (length b = 9)"

definition ConfidentialCommitment :: "Buffer \<Rightarrow> bool" where
  "ConfidentialCommitment b = (length b = 33)"

definition BufferOne :: "Buffer \<Rightarrow> bool" where
  "BufferOne b = (length b = 1)"

text \<open>\<^verbatim>\<open>typeforce(type, value)\<close> throws unless the value has the type.\<close>

definition typeforce :: "bool \<Rightarrow> error + unit" where
  "typeforce ok = (if ok then Inr () else Inl TypeError)"

definition isCoinbaseHash :: "Buffer \<Rightarrow> error + bool" where
  "isCoinbaseHash buf =
     (case typeforce (Hash256bit buf) of
        Inl e \<Rightarrow> Inl e
      | Inr _ \<Rightarrow> Inr (list_all (\<lambda>i. i < length buf \<and> buf ! i = 0) [0..<32]))"

definition isCoinbase :: "Transaction \<Rightarrow> error + bool" where
  "isCoinbase t =
     (if length (ins t) = 1 then isCoinbaseHash (hash (ins t ! 0)) else Inr False)"

definition validateIssuance :: "Buffer \<Rightarrow> Buffer \<Rightarrow> Buffer \<Rightarrow> Buffer \<Rightarrow> error + bool" where
  "validateIssuance assetBlindingNonce' assetEntropy' assetAmount' tokenAmount' =
     (case typeforce (Hash256bit assetBlindingNonce') of Inl e \<Rightarrow> Inl e | Inr _ \<Rightarrow>
      case typeforce (Hash256bit assetEntropy') of Inl e \<Rightarrow> Inl e | Inr _ \<Rightarrow>
      case typeforce (ConfidentialValue assetAmount' \<or> ConfidentialCommitment assetAmount' \<or> BufferOne assetAmount')
        of Inl e \<Rightarrow> Inl e | Inr _ \<Rightarrow>
      case typeforce (ConfidentialValue tokenAmount' \<or> ConfidentialCommitment tokenAmount' \<or> BufferOne tokenAmount')
        of Inl e \<Rightarrow> Inl e | Inr _ \<Rightarrow>
      Inr True)"

text \<open>
  \<^verbatim>\<open>addInput(hash, index, sequence?, scriptSig?, issuance?)\<close> returns the new input's
  position together with the transaction it has pushed the input onto. The numbers
  are \<^verbatim>\<open>UInt32\<close> by the \<^verbatim>\<open>typeforce\<close> check; a primed name is the argument of that name. \<^verbatim>\<open>a || b\<close> is \<open>a\<close> when \<open>a\<close> is truthy: a
  buffer always is, a number is unless it is \<open>0\<close>.
\<close>

definition addInput ::
  "Transaction \<Rightarrow> Buffer \<Rightarrow> u32 \<Rightarrow> u32 option \<Rightarrow> Buffer option \<Rightarrow> Issuance option
    \<Rightarrow> error + (nat \<times> Transaction)" where
  "addInput t hash' index' sequence' scriptSig issuance' =
     (case typeforce (Hash256bit hash') of Inl e \<Rightarrow> Inl e | Inr _ \<Rightarrow>
      case (if index' \<noteq> MINUS_1
            then (case (if index' AND OUTPOINT_ISSUANCE_FLAG \<noteq> 0
                        then (case issuance' of
                                None \<Rightarrow> Inl MissingIssuance
                              | Some i \<Rightarrow> validateIssuance (assetBlindingNonce i) (assetEntropy i)
                                            (assetAmount i) (tokenAmount i))
                        else Inr True) of
                    Inl e \<Rightarrow> Inl e
                  | Inr _ \<Rightarrow> Inr (index' AND OUTPOINT_PEGIN_FLAG \<noteq> 0, index' AND OUTPOINT_INDEX_MASK))
            else Inr (False, index')) of
        Inl e \<Rightarrow> Inl e
      | Inr (isPegin', index'') \<Rightarrow>
          Inr (length (ins t),
               t\<lparr>ins := ins t @
                 [\<lparr>hash = hash',
                   index = index'',
                   script = (case scriptSig of Some s \<Rightarrow> s | None \<Rightarrow> EMPTY_BUFFER),
                   sequence = (case sequence' of
                                 Some s \<Rightarrow> if s \<noteq> 0 then s else DEFAULT_SEQUENCE
                               | None \<Rightarrow> DEFAULT_SEQUENCE),
                   witness = EMPTY_WITNESS,
                   isPegin = isPegin',
                   issuance = issuance',
                   peginWitness = EMPTY_WITNESS,
                   issuanceRangeProof = EMPTY_BUFFER,
                   inflationRangeProof = EMPTY_BUFFER\<rparr>]\<rparr>))"

text \<open>
  \<^verbatim>\<open>getHash(forWitness?)\<close>; \<open>hash256\<close> is the double SHA-256 of \<^verbatim>\<open>./crypto\<close>, an
  external collaborator, and \<^verbatim>\<open>Buffer.alloc(32, 0)\<close> is 32 zero bytes.
\<close>

definition getHash :: "(Buffer \<Rightarrow> Buffer) \<Rightarrow> Buffer \<Rightarrow> Transaction \<Rightarrow> bool option \<Rightarrow> error + Buffer" where
  "getHash hash256 junk t forWitness =
     (case (if truthy forWitness then isCoinbase t else Inr False) of
        Inl e \<Rightarrow> Inl e
      | Inr coinbase \<Rightarrow>
          if coinbase then Inr (replicate 32 0)
          else (case toBuffer_priv junk None None forWitness (Some True) None t of
                  Inl e \<Rightarrow> Inl e
                | Inr b \<Rightarrow> Inr (hash256 b)))"

section \<open>Objects and references: \<^verbatim>\<open>clone\<close> and \<^verbatim>\<open>hashForSignature\<close>\<close>

text \<open>
  \<^verbatim>\<open>hashForSignature\<close> mutates a clone whose inputs and outputs share their buffers
  with the original, so it is modelled on an explicit store. A heap is the list of
  the objects allocated so far and a reference is a position in it; a \<^verbatim>\<open>new\<close>, an
  object literal or an array literal appends an object. The fields that hold
  buffers, arrays or objects hold references. \<^verbatim>\<open>BLANK_OUTPUT\<close> has no \<^verbatim>\<open>value\<close>,
  \<^verbatim>\<open>rangeProof\<close> or \<^verbatim>\<open>surjectionProof\<close> property, so these three are optional here.
\<close>

type_synonym addr = nat

record IssuanceRef =
  i_assetBlindingNonce :: addr
  i_assetEntropy :: addr
  i_assetAmount :: addr
  i_tokenAmount :: addr

record OutputRef =
  o_script :: addr
  o_value :: "addr option"
  o_asset :: addr
  o_nonce :: addr
  o_rangeProof :: "addr option"
  o_surjectionProof :: "addr option"

record InputRef =
  r_hash :: addr
  r_index :: u32
  r_script :: addr
  r_sequence :: u32
  r_witness :: addr
  r_isPegin :: bool
  r_issuance :: "addr option"
  r_peginWitness :: addr
  r_issuanceRangeProof :: addr
  r_inflationRangeProof :: addr

record TransactionRef =
  t_version :: "32 word"
  t_locktime :: u32
  t_flag :: byte
  t_ins :: addr
  t_outs :: addr

datatype obj =
    BufferObj Buffer
  | ArrayObj "addr list"
  | IssuanceObj IssuanceRef
  | OutputObj OutputRef
  | InputObj InputRef
  | TransactionObj TransactionRef

type_synonym heap = "obj list"

text \<open>
  The constants of the module are allocated when it is loaded: \<^verbatim>\<open>EMPTY_BUFFER\<close>,
  \<^verbatim>\<open>EMPTY_WITNESS\<close>, \<^verbatim>\<open>ZERO\<close>, \<^verbatim>\<open>ONE\<close>, \<^verbatim>\<open>VALUE_UINT64_MAX\<close> and \<^verbatim>\<open>BLANK_OUTPUT\<close>.
\<close>

definition EMPTY_BUFFER_at :: addr where
  "EMPTY_BUFFER_at = 0"

definition EMPTY_WITNESS_at :: addr where
  "EMPTY_WITNESS_at = 1"

definition ZERO_at :: addr where
  "ZERO_at = 2"

definition ONE_at :: addr where
  "ONE_at = 3"

definition VALUE_UINT64_MAX_at :: addr where
  "VALUE_UINT64_MAX_at = 4"

definition BLANK_OUTPUT_at :: addr where
  "BLANK_OUTPUT_at = 5"

definition BLANK_OUTPUT :: OutputRef where
  "BLANK_OUTPUT =
     \<lparr>o_script = EMPTY_BUFFER_at, o_value = None, o_asset = ZERO_at, o_nonce = ZERO_at,
      o_rangeProof = None, o_surjectionProof = None\<rparr>"

definition module_heap :: heap where
  "module_heap =
     [BufferObj EMPTY_BUFFER, ArrayObj [], BufferObj ZERO, BufferObj ONE,
      BufferObj (replicate 8 0xff), OutputObj BLANK_OUTPUT]"

text \<open>
  A computation on the heap returns a value or throws, and leaves a heap either
  way: what it wrote before throwing stays written.
\<close>

type_synonym 'a hm = "heap \<Rightarrow> (error + 'a) \<times> heap"

definition hreturn :: "'a \<Rightarrow> 'a hm" where
  "hreturn v h = (Inr v, h)"

definition hthrow :: "error \<Rightarrow> 'a hm" where
  "hthrow e h = (Inl e, h)"

definition hbind :: "'a hm \<Rightarrow> ('a \<Rightarrow> 'b hm) \<Rightarrow> 'b hm" where
  "hbind m f h = (case m h of (Inl e, h') \<Rightarrow> (Inl e, h') | (Inr v, h') \<Rightarrow> f v h')"

definition halloc :: "obj \<Rightarrow> addr hm" where
  "halloc x h = (Inr (length h), h @ [x])"

text \<open>
  Property access through a reference: a reference that holds no object of the
  expected kind stands for \<^verbatim>\<open>undefined\<close>, and access through it throws a
  \<^verbatim>\<open>TypeError\<close>.
\<close>

definition get_Transaction :: "addr \<Rightarrow> TransactionRef hm" where
  "get_Transaction a h =
     (if a < length h then (case h ! a of TransactionObj t \<Rightarrow> (Inr t, h) | _ \<Rightarrow> (Inl TypeError, h))
      else (Inl TypeError, h))"

definition get_Input :: "addr \<Rightarrow> InputRef hm" where
  "get_Input a h =
     (if a < length h then (case h ! a of InputObj x \<Rightarrow> (Inr x, h) | _ \<Rightarrow> (Inl TypeError, h))
      else (Inl TypeError, h))"

definition get_Output :: "addr \<Rightarrow> OutputRef hm" where
  "get_Output a h =
     (if a < length h then (case h ! a of OutputObj x \<Rightarrow> (Inr x, h) | _ \<Rightarrow> (Inl TypeError, h))
      else (Inl TypeError, h))"

definition get_Array :: "addr \<Rightarrow> addr list hm" where
  "get_Array a h =
     (if a < length h then (case h ! a of ArrayObj xs \<Rightarrow> (Inr xs, h) | _ \<Rightarrow> (Inl TypeError, h))
      else (Inl TypeError, h))"

text \<open>Assignment to properties of the object behind a reference.\<close>

definition set_Transaction :: "addr \<Rightarrow> (TransactionRef \<Rightarrow> TransactionRef) \<Rightarrow> unit hm" where
  "set_Transaction a f = hbind (get_Transaction a) (\<lambda>t h. (Inr (), h[a := TransactionObj (f t)]))"

definition set_Input :: "addr \<Rightarrow> (InputRef \<Rightarrow> InputRef) \<Rightarrow> unit hm" where
  "set_Input a f = hbind (get_Input a) (\<lambda>x h. (Inr (), h[a := InputObj (f x)]))"

definition set_Array :: "addr \<Rightarrow> (addr list \<Rightarrow> addr list) \<Rightarrow> unit hm" where
  "set_Array a f = hbind (get_Array a) (\<lambda>xs h. (Inr (), h[a := ArrayObj (f xs)]))"

text \<open>\<^verbatim>\<open>xs.map(f)\<close>, \<^verbatim>\<open>xs.forEach((x, i) => ...)\<close> and a counting \<^verbatim>\<open>for\<close> loop.\<close>

fun hmap :: "('a \<Rightarrow> 'b hm) \<Rightarrow> 'a list \<Rightarrow> 'b list hm" where
  "hmap f [] = hreturn []"
| "hmap f (x # xs) = hbind (f x) (\<lambda>y. hbind (hmap f xs) (\<lambda>ys. hreturn (y # ys)))"

fun hforEach :: "('a \<Rightarrow> nat \<Rightarrow> unit hm) \<Rightarrow> 'a list \<Rightarrow> nat \<Rightarrow> unit hm" where
  "hforEach f [] i = hreturn ()"
| "hforEach f (x # xs) i = hbind (f x i) (\<lambda>_. hforEach f xs (Suc i))"

fun hfor :: "(nat \<Rightarrow> unit hm) \<Rightarrow> nat list \<Rightarrow> unit hm" where
  "hfor f [] = hreturn ()"
| "hfor f (i # is) = hbind (f i) (\<lambda>_. hfor f is)"

subsection \<open>\<^verbatim>\<open>clone\<close>\<close>

text \<open>
  \<^verbatim>\<open>new Transaction()\<close> allocates the object with its field initializers: version 1,
  locktime 0, flag 0 and two new empty arrays.
\<close>

definition new_Transaction :: "addr hm" where
  "new_Transaction =
     hbind (halloc (ArrayObj [])) (\<lambda>ins.
     hbind (halloc (ArrayObj [])) (\<lambda>outs.
     halloc (TransactionObj \<lparr>t_version = 1, t_locktime = 0, t_flag = 0, t_ins = ins, t_outs = outs\<rparr>)))"

definition clone :: "addr \<Rightarrow> addr hm" where
  "clone this =
     hbind new_Transaction (\<lambda>newTx.
     hbind (get_Transaction this) (\<lambda>t.
     hbind (set_Transaction newTx (\<lambda>n. n\<lparr>t_version := t_version t\<rparr>)) (\<lambda>_.
     hbind (get_Transaction this) (\<lambda>t.
     hbind (set_Transaction newTx (\<lambda>n. n\<lparr>t_locktime := t_locktime t\<rparr>)) (\<lambda>_.
     hbind (get_Transaction this) (\<lambda>t.
     hbind (set_Transaction newTx (\<lambda>n. n\<lparr>t_flag := t_flag t\<rparr>)) (\<lambda>_.
     hbind (get_Transaction this) (\<lambda>t.
     hbind (get_Array (t_ins t)) (\<lambda>ins.
     hbind (hmap (\<lambda>a. hbind (get_Input a) (\<lambda>txIn. halloc (InputObj txIn))) ins) (\<lambda>newIns.
     hbind (halloc (ArrayObj newIns)) (\<lambda>insArray.
     hbind (set_Transaction newTx (\<lambda>n. n\<lparr>t_ins := insArray\<rparr>)) (\<lambda>_.
     hbind (get_Transaction this) (\<lambda>t.
     hbind (get_Array (t_outs t)) (\<lambda>outs.
     hbind (hmap (\<lambda>a. hbind (get_Output a) (\<lambda>txOut. halloc (OutputObj txOut))) outs) (\<lambda>newOuts.
     hbind (halloc (ArrayObj newOuts)) (\<lambda>outsArray.
     hbind (set_Transaction newTx (\<lambda>n. n\<lparr>t_outs := outsArray\<rparr>)) (\<lambda>_.
     hreturn newTx)))))))))))))))))"

subsection \<open>Reading a transaction out of the heap\<close>

text \<open>
  \<^verbatim>\<open>__byteLength\<close> and \<^verbatim>\<open>__toBuffer\<close> only read the transaction. \<open>load_Transaction\<close> is
  what they read: the transaction behind a reference, with every buffer's content
  in place of its reference. Reading \<^verbatim>\<open>txOut.value.length\<close> in \<^verbatim>\<open>__byteLength\<close> throws
  a \<^verbatim>\<open>TypeError\<close> on an output without a \<^verbatim>\<open>value\<close>; the proofs of an output are not read
  when \<^verbatim>\<open>_ALLOW_WITNESS\<close> is false, which is the only use made here, and are
  loaded as empty where they are undefined.
\<close>

fun smap :: "('a \<Rightarrow> error + 'b) \<Rightarrow> 'a list \<Rightarrow> error + 'b list" where
  "smap f [] = Inr []"
| "smap f (x # xs) =
     (case f x of Inl e \<Rightarrow> Inl e
      | Inr y \<Rightarrow> (case smap f xs of Inl e \<Rightarrow> Inl e | Inr ys \<Rightarrow> Inr (y # ys)))"

definition load_Buffer :: "heap \<Rightarrow> addr \<Rightarrow> error + Buffer" where
  "load_Buffer h a =
     (if a < length h then (case h ! a of BufferObj b \<Rightarrow> Inr b | _ \<Rightarrow> Inl TypeError)
      else Inl TypeError)"

definition load_Array :: "(heap \<Rightarrow> addr \<Rightarrow> error + 'a) \<Rightarrow> heap \<Rightarrow> addr \<Rightarrow> error + 'a list" where
  "load_Array f h a =
     (if a < length h then (case h ! a of ArrayObj xs \<Rightarrow> smap (f h) xs | _ \<Rightarrow> Inl TypeError)
      else Inl TypeError)"

definition load_Buffers :: "heap \<Rightarrow> addr \<Rightarrow> error + Buffer list" where
  "load_Buffers = load_Array load_Buffer"

definition load_Issuance :: "heap \<Rightarrow> addr \<Rightarrow> error + Issuance" where
  "load_Issuance h a =
     (if a < length h
      then (case h ! a of
              IssuanceObj i \<Rightarrow>
                (case load_Buffer h (i_assetBlindingNonce i) of Inl e \<Rightarrow> Inl e | Inr n \<Rightarrow>
                 case load_Buffer h (i_assetEntropy i) of Inl e \<Rightarrow> Inl e | Inr e \<Rightarrow>
                 case load_Buffer h (i_assetAmount i) of Inl e \<Rightarrow> Inl e | Inr a \<Rightarrow>
                 case load_Buffer h (i_tokenAmount i) of Inl e \<Rightarrow> Inl e | Inr t \<Rightarrow>
                 Inr \<lparr>assetBlindingNonce = n, assetEntropy = e, assetAmount = a, tokenAmount = t\<rparr>)
            | _ \<Rightarrow> Inl TypeError)
      else Inl TypeError)"

definition load_Input :: "heap \<Rightarrow> addr \<Rightarrow> error + Input" where
  "load_Input h a =
     (if a < length h
      then (case h ! a of
              InputObj x \<Rightarrow>
                (case load_Buffer h (r_hash x) of Inl e \<Rightarrow> Inl e | Inr hash' \<Rightarrow>
                 case load_Buffer h (r_script x) of Inl e \<Rightarrow> Inl e | Inr script' \<Rightarrow>
                 case load_Buffers h (r_witness x) of Inl e \<Rightarrow> Inl e | Inr witness' \<Rightarrow>
                 case (case r_issuance x of None \<Rightarrow> Inr None
                       | Some i \<Rightarrow> (case load_Issuance h i of Inl e \<Rightarrow> Inl e | Inr v \<Rightarrow> Inr (Some v)))
                   of Inl e \<Rightarrow> Inl e | Inr issuance' \<Rightarrow>
                 case load_Buffers h (r_peginWitness x) of Inl e \<Rightarrow> Inl e | Inr peginWitness' \<Rightarrow>
                 case load_Buffer h (r_issuanceRangeProof x) of Inl e \<Rightarrow> Inl e | Inr irp \<Rightarrow>
                 case load_Buffer h (r_inflationRangeProof x) of Inl e \<Rightarrow> Inl e | Inr frp \<Rightarrow>
                 Inr \<lparr>hash = hash', index = r_index x, script = script', sequence = r_sequence x,
                      witness = witness', isPegin = r_isPegin x, issuance = issuance',
                      peginWitness = peginWitness', issuanceRangeProof = irp,
                      inflationRangeProof = frp\<rparr>)
            | _ \<Rightarrow> Inl TypeError)
      else Inl TypeError)"

definition load_proof :: "heap \<Rightarrow> addr option \<Rightarrow> error + Buffer" where
  "load_proof h a = (case a of None \<Rightarrow> Inr EMPTY_BUFFER | Some p \<Rightarrow> load_Buffer h p)"

definition load_Output :: "heap \<Rightarrow> addr \<Rightarrow> error + Output" where
  "load_Output h a =
     (if a < length h
      then (case h ! a of
              OutputObj x \<Rightarrow>
                (case load_Buffer h (o_asset x) of Inl e \<Rightarrow> Inl e | Inr asset' \<Rightarrow>
                 case (case o_value x of None \<Rightarrow> Inl TypeError | Some v \<Rightarrow> load_Buffer h v)
                   of Inl e \<Rightarrow> Inl e | Inr value' \<Rightarrow>
                 case load_Buffer h (o_nonce x) of Inl e \<Rightarrow> Inl e | Inr nonce' \<Rightarrow>
                 case load_Buffer h (o_script x) of Inl e \<Rightarrow> Inl e | Inr script' \<Rightarrow>
                 case load_proof h (o_rangeProof x) of Inl e \<Rightarrow> Inl e | Inr rangeProof' \<Rightarrow>
                 case load_proof h (o_surjectionProof x) of Inl e \<Rightarrow> Inl e | Inr surjectionProof' \<Rightarrow>
                 Inr \<lparr>Output.script = script', value = value', asset = asset', nonce = nonce',
                      rangeProof = rangeProof', surjectionProof = surjectionProof'\<rparr>)
            | _ \<Rightarrow> Inl TypeError)
      else Inl TypeError)"

definition load_Transaction :: "heap \<Rightarrow> addr \<Rightarrow> error + Transaction" where
  "load_Transaction h a =
     (if a < length h
      then (case h ! a of
              TransactionObj t \<Rightarrow>
                (case load_Array load_Input h (t_ins t) of Inl e \<Rightarrow> Inl e | Inr ins' \<Rightarrow>
                 case load_Array load_Output h (t_outs t) of Inl e \<Rightarrow> Inl e | Inr outs' \<Rightarrow>
                 Inr \<lparr>version = t_version t, locktime = t_locktime t, flag = t_flag t,
                      ins = ins', outs = outs'\<rparr>)
            | _ \<Rightarrow> Inl TypeError)
      else Inl TypeError)"

subsection \<open>\<^verbatim>\<open>hashForSignature\<close>\<close>

text \<open>
  The script codec (\<^verbatim>\<open>./script\<close>) is an external collaborator: \<open>decompile\<close> and
  \<open>compile\<close> are parameters, as is \<open>hash256\<close>. A decompiled script is a sequence of
  opcodes and pushed data; \<^verbatim>\<open>bscript.decompile\<close> may return \<^verbatim>\<open>null\<close>, on which the
  \<^verbatim>\<open>.filter\<close> of line 391 throws a \<^verbatim>\<open>TypeError\<close>.
\<close>

datatype chunk = Op nat | Push Buffer

definition OP_CODESEPARATOR :: chunk where
  "OP_CODESEPARATOR = Op 0xAB"

text \<open>
  \<^verbatim>\<open>txTmp.ins.forEach((input, i) => { if (i === inIndex) return; input.sequence = 0; })\<close>
  (lines 403 to 407 and 423 to 427).
\<close>

definition zero_sequences :: "addr \<Rightarrow> nat \<Rightarrow> unit hm" where
  "zero_sequences txTmp inIndex =
     hbind (get_Transaction txTmp) (\<lambda>t.
     hbind (get_Array (t_ins t)) (\<lambda>ins.
     hforEach (\<lambda>input i. if i = inIndex then hreturn ()
                          else set_Input input (\<lambda>x. x\<lparr>r_sequence := 0\<rparr>)) ins 0))"

text \<open>The branch for \<^verbatim>\<open>SIGHASH_NONE\<close> (lines 400 to 407).\<close>

definition sighash_none :: "addr \<Rightarrow> nat \<Rightarrow> unit hm" where
  "sighash_none txTmp inIndex =
     hbind (halloc (ArrayObj [])) (\<lambda>outs.
     hbind (set_Transaction txTmp (\<lambda>n. n\<lparr>t_outs := outs\<rparr>)) (\<lambda>_.
     zero_sequences txTmp inIndex))"

text \<open>
  The branch for \<^verbatim>\<open>SIGHASH_SINGLE\<close> (lines 412 to 427); it returns whether the function
  has returned \<^verbatim>\<open>ONE\<close>. Past the test, \<^verbatim>\<open>inIndex\<close> is below the length of the outputs,
  which the clone's array has too, so the assignment to \<^verbatim>\<open>length\<close> truncates and the
  blanked positions exist.
\<close>

definition sighash_single :: "addr \<Rightarrow> addr \<Rightarrow> nat \<Rightarrow> bool hm" where
  "sighash_single this txTmp inIndex =
     hbind (get_Transaction this) (\<lambda>t.
     hbind (get_Array (t_outs t)) (\<lambda>outs.
     if inIndex \<ge> length outs then hreturn True
     else
       hbind (get_Transaction txTmp) (\<lambda>n.
       hbind (set_Array (t_outs n) (take (inIndex + 1))) (\<lambda>_.
       hbind (hfor (\<lambda>i. hbind (get_Transaction txTmp) (\<lambda>n.
                          set_Array (t_outs n) (\<lambda>xs. xs[i := BLANK_OUTPUT_at])))
                [0..<inIndex]) (\<lambda>_.
       hbind (zero_sequences txTmp inIndex) (\<lambda>_.
       hreturn False))))))"

text \<open>
  The branch for \<^verbatim>\<open>SIGHASH_ANYONECANPAY\<close> (lines 432 and 433). An index outside the
  array reads \<^verbatim>\<open>undefined\<close>, and the assignment to its \<^verbatim>\<open>script\<close> throws.
\<close>

definition sighash_anyonecanpay :: "addr \<Rightarrow> nat \<Rightarrow> addr \<Rightarrow> unit hm" where
  "sighash_anyonecanpay txTmp inIndex ourScript =
     hbind (get_Transaction txTmp) (\<lambda>n.
     hbind (get_Array (t_ins n)) (\<lambda>ins.
     hbind (halloc (ArrayObj (if inIndex < length ins then [ins ! inIndex] else []))) (\<lambda>a.
     hbind (set_Transaction txTmp (\<lambda>n. n\<lparr>t_ins := a\<rparr>)) (\<lambda>_.
     hbind (get_Transaction txTmp) (\<lambda>n.
     hbind (get_Array (t_ins n)) (\<lambda>ins.
     (case ins of
        [] \<Rightarrow> hthrow TypeError
      | input # _ \<Rightarrow> set_Input input (\<lambda>x. x\<lparr>r_script := ourScript\<rparr>))))))))"

text \<open>The other branch (lines 438 to 441).\<close>

definition sighash_all_inputs :: "addr \<Rightarrow> nat \<Rightarrow> addr \<Rightarrow> unit hm" where
  "sighash_all_inputs txTmp inIndex ourScript =
     hbind (get_Transaction txTmp) (\<lambda>n.
     hbind (get_Array (t_ins n)) (\<lambda>ins.
     hbind (hforEach (\<lambda>input i. set_Input input (\<lambda>x. x\<lparr>r_script := EMPTY_BUFFER_at\<rparr>)) ins 0) (\<lambda>_.
     hbind (get_Transaction txTmp) (\<lambda>n.
     hbind (get_Array (t_ins n)) (\<lambda>ins.
     if inIndex < length ins then set_Input (ins ! inIndex) (\<lambda>x. x\<lparr>r_script := ourScript\<rparr>)
     else hthrow TypeError)))))"

text \<open>
  Serialize and hash (lines 445 to 451). \<^verbatim>\<open>buffer.writeInt32LE\<close> throws a
  \<^verbatim>\<open>RangeError\<close> on a number above \<open>2 ^ 31 - 1\<close>; \<^verbatim>\<open>__toBuffer\<close> writes into \<^verbatim>\<open>buffer\<close> in
  place, and the whole of \<^verbatim>\<open>buffer\<close> is hashed.
\<close>

definition serialize_and_hash :: "(Buffer \<Rightarrow> Buffer) \<Rightarrow> Buffer \<Rightarrow> addr \<Rightarrow> u32 \<Rightarrow> Buffer hm" where
  "serialize_and_hash hash256 junk txTmp hashType h =
     (case load_Transaction h txTmp of
        Inl e \<Rightarrow> (Inl e, h)
      | Inr tx \<Rightarrow>
          (let buf = allocUnsafe junk (byteLength_priv tx (Some False) (Some True) + 4)
           in if \<not> hashType < 2 ^ 31 then (Inl RangeError, h)
              else
                (let buf = take (length buf - 4) buf @ le_bytes 4 (unat hashType)
                 in case toBuffer_writer junk (Some buf) (Some 0) (Some False) (Some True) (Some True) tx of
                      Inl e \<Rightarrow> (Inl e, h)
                    | Inr w \<Rightarrow> (Inr (hash256 (BufferWriter.buffer w)), h))))"

text \<open>
  \<^verbatim>\<open>hashForSignature(inIndex, prevOutScript, hashType)\<close> on the transaction behind
  \<open>this\<close>. The arguments are a \<^verbatim>\<open>UInt32\<close>, a buffer and a number by the \<^verbatim>\<open>typeforce\<close>
  check; the result is the content of the buffer returned.
\<close>

definition hashForSignature ::
  "(Buffer \<Rightarrow> chunk list option) \<Rightarrow> (chunk list \<Rightarrow> Buffer) \<Rightarrow> (Buffer \<Rightarrow> Buffer) \<Rightarrow> Buffer \<Rightarrow>
   addr \<Rightarrow> nat \<Rightarrow> Buffer \<Rightarrow> u32 \<Rightarrow> Buffer hm" where
  "hashForSignature decompile compile hash256 junk this inIndex prevOutScript hashType =
     hbind (get_Transaction this) (\<lambda>t.
     hbind (get_Array (t_ins t)) (\<lambda>ins.
     if inIndex \<ge> length ins then hreturn ONE
     else
       hbind (case decompile prevOutScript of
                None \<Rightarrow> hthrow TypeError
              | Some chunks \<Rightarrow>
                  halloc (BufferObj (compile (filter (\<lambda>x. x \<noteq> OP_CODESEPARATOR) chunks)))) (\<lambda>ourScript.
       hbind (clone this) (\<lambda>txTmp.
       hbind (if hashType AND 0x1f = SIGHASH_NONE
              then hbind (sighash_none txTmp inIndex) (\<lambda>_. hreturn False)
              else if hashType AND 0x1f = SIGHASH_SINGLE
              then sighash_single this txTmp inIndex
              else hreturn False) (\<lambda>returned.
       if returned then hreturn ONE
       else
         hbind (if hashType AND SIGHASH_ANYONECANPAY \<noteq> 0
                then sighash_anyonecanpay txTmp inIndex ourScript
                else sighash_all_inputs txTmp inIndex ourScript) (\<lambda>_.
         serialize_and_hash hash256 junk txTmp hashType))))))"

section \<open>Example values\<close>

definition coinbase_in :: Input where
  "coinbase_in =
     \<lparr>hash = replicate 32 0, index = 0xFFFFFFFF, script = [0x51], sequence = 0xFFFFFFFF,
      witness = [], isPegin = False, issuance = None, peginWitness = [],
      issuanceRangeProof = [], inflationRangeProof = []\<rparr>"

definition empty_tx :: Transaction where
  "empty_tx = \<lparr>version = 1, locktime = 0, flag = 0, ins = [], outs = []\<rparr>"

text \<open>
  A transaction as \<^verbatim>\<open>addInput\<close> followed by \<^verbatim>\<open>setWitness\<close> leaves it: one input that
  carries a witness stack, and the flag still 0.
\<close>

definition wit_in :: Input where
  "wit_in =
     \<lparr>hash = replicate 32 0, index = 0, script = [], sequence = 0xFFFFFFFF,
      witness = [[1]], isPegin = False, issuance = None, peginWitness = [],
      issuanceRangeProof = [], inflationRangeProof = []\<rparr>"

definition wit_tx :: Transaction where
  "wit_tx = \<lparr>version = 2, locktime = 0, flag = 0, ins = [wit_in], outs = []\<rparr>"

text \<open>A transaction with the flag set and one output with an explicit value of 5.\<close>

definition explicit_out :: Output where
  "explicit_out =
     \<lparr>Output.script = [0x51], value = [1, 0, 0, 0, 0, 0, 0, 0, 5], asset = 1 # replicate 32 7, nonce = [0],
      rangeProof = [], surjectionProof = []\<rparr>"

definition sig_tx :: Transaction where
  "sig_tx = \<lparr>version = 2, locktime = 0, flag = 1, ins = [], outs = [explicit_out]\<rparr>"

text \<open>
  Inputs with an issuance and the peg-in flag: one with the logical index 5, one
  with the largest logical index, \<open>2 ^ 30 - 1\<close>.
\<close>

definition some_issuance :: Issuance where
  "some_issuance =
     \<lparr>assetBlindingNonce = replicate 32 1, assetEntropy = replicate 32 2,
      assetAmount = [1, 0, 0, 0, 0, 0, 0, 0, 5], tokenAmount = [0]\<rparr>"

definition flagged_in :: Input where
  "flagged_in =
     \<lparr>hash = replicate 32 0, index = 5, script = [], sequence = 0xFFFFFFFF,
      witness = [], isPegin = True, issuance = Some some_issuance, peginWitness = [],
      issuanceRangeProof = [], inflationRangeProof = []\<rparr>"

definition max_in :: Input where
  "max_in = flagged_in\<lparr>index := 0x3FFFFFFF\<rparr>"

definition max_in_bytes :: Buffer where
  "max_in_bytes =
     replicate 32 0 @ [255, 255, 255, 255] @ [0] @ [255, 255, 255, 255] @
     replicate 32 1 @ replicate 32 2 @ [1, 0, 0, 0, 0, 0, 0, 0, 5] @ [0]"

text \<open>
  A transaction with the flag set, an input with an issuance, the peg-in flag and
  witness data, a coinbase-style input, and an output with both proofs.
\<close>

definition full_tx :: Transaction where
  "full_tx =
     \<lparr>version = 2, locktime = 7, flag = 1,
      ins = [flagged_in\<lparr>witness := [[1, 2], []], peginWitness := [[3]], issuanceRangeProof := [4]\<rparr>,
             coinbase_in],
      outs = [explicit_out\<lparr>rangeProof := [9], surjectionProof := [8]\<rparr>]\<rparr>"

definition wit_tx_bytes :: Buffer where
  "wit_tx_bytes =
     [2, 0, 0, 0, 1, 1] @ replicate 32 0 @ [0, 0, 0, 0, 0, 255, 255, 255, 255, 0, 0, 0, 0, 0] @
     [0, 0, 1, 1, 1, 0]"

text \<open>
  A heap with the module's constants and a transaction (at 16) of two inputs (at 8
  and 9, sharing their hash and script buffers) and one output (at 14).
\<close>

definition ex_input :: InputRef where
  "ex_input =
     \<lparr>r_hash = 6, r_index = 0, r_script = 7, r_sequence = 0xFFFFFFFF, r_witness = EMPTY_WITNESS_at,
      r_isPegin = False, r_issuance = None, r_peginWitness = EMPTY_WITNESS_at,
      r_issuanceRangeProof = EMPTY_BUFFER_at, r_inflationRangeProof = EMPTY_BUFFER_at\<rparr>"

definition ex_output :: OutputRef where
  "ex_output =
     \<lparr>o_script = 7, o_value = Some 12, o_asset = 11, o_nonce = 13,
      o_rangeProof = Some EMPTY_BUFFER_at, o_surjectionProof = Some EMPTY_BUFFER_at\<rparr>"

definition ex_heap :: heap where
  "ex_heap =
     module_heap @
     [BufferObj (replicate 32 0x11), BufferObj [0x51],
      InputObj ex_input, InputObj (ex_input\<lparr>r_index := 1\<rparr>), ArrayObj [8, 9],
      BufferObj (1 # replicate 32 7), BufferObj [1, 0, 0, 0, 0, 0, 0, 0, 5], BufferObj [0],
      OutputObj ex_output, ArrayObj [14],
      TransactionObj \<lparr>t_version = 2, t_locktime = 0, t_flag = 0, t_ins = 10, t_outs = 15\<rparr>]"

section \<open>The byte strings that the serializer emits\<close>

text \<open>
  The wire image of each part of a transaction, as a plain byte string. The theorems
  below relate the writes of \<open>toBuffer_writes\<close> to these strings.
\<close>

definition varslice :: "Buffer \<Rightarrow> Buffer" where
  "varslice bs = varint (length bs) @ bs"

definition vector_bytes :: "Buffer list \<Rightarrow> Buffer" where
  "vector_bytes v = varint (length v) @ concat (map varslice v)"

definition wire_index :: "Input \<Rightarrow> u32" where
  "wire_index txIn =
     (let i = (if issuance txIn \<noteq> None then index txIn OR OUTPOINT_ISSUANCE_FLAG else index txIn)
      in if isPegin txIn then i OR OUTPOINT_PEGIN_FLAG else i)"

definition issuance_bytes :: "Issuance option \<Rightarrow> Buffer" where
  "issuance_bytes iss =
     (case iss of
        None \<Rightarrow> []
      | Some i \<Rightarrow> assetBlindingNonce i @ assetEntropy i @ assetAmount i @ tokenAmount i)"

definition txIn_bytes :: "Input \<Rightarrow> Buffer" where
  "txIn_bytes txIn =
     hash txIn @ le_bytes 4 (unat (wire_index txIn)) @ varslice (Input.script txIn) @
     le_bytes 4 (unat (sequence txIn)) @ issuance_bytes (issuance txIn)"

definition txOut_bytes :: "Output \<Rightarrow> Buffer" where
  "txOut_bytes txOut =
     asset txOut @ Output.value txOut @ nonce txOut @ varslice (Output.script txOut)"

definition txOut_bytes_sig :: "Output \<Rightarrow> Buffer" where
  "txOut_bytes_sig txOut =
     asset txOut @ [0] @ nonce txOut @ replicate 8 0 @ varslice (Output.script txOut)"

definition inFields_bytes :: "Input \<Rightarrow> Buffer" where
  "inFields_bytes txIn =
     varslice (issuanceRangeProof txIn) @ varslice (inflationRangeProof txIn) @
     vector_bytes (witness txIn) @ vector_bytes (peginWitness txIn)"

definition outFields_bytes :: "Output \<Rightarrow> Buffer" where
  "outFields_bytes txOut = varslice (surjectionProof txOut) @ varslice (rangeProof txOut)"

definition witness_suffix :: "Transaction \<Rightarrow> Buffer" where
  "witness_suffix t = concat (map inFields_bytes (ins t)) @ concat (map outFields_bytes (outs t))"

definition ins_bytes :: "Transaction \<Rightarrow> Buffer" where
  "ins_bytes t = varint (length (ins t)) @ concat (map txIn_bytes (ins t))"

definition outs_bytes :: "Transaction \<Rightarrow> Buffer" where
  "outs_bytes t = varint (length (outs t)) @ concat (map txOut_bytes (outs t))"

definition outs_bytes_sig :: "Transaction \<Rightarrow> Buffer" where
  "outs_bytes_sig t = varint (length (outs t)) @ concat (map txOut_bytes_sig (outs t))"

definition tx_bytes :: "Transaction \<Rightarrow> bool option \<Rightarrow> bool option \<Rightarrow> bool option \<Rightarrow> Buffer" where
  "tx_bytes t ALLOW_WITNESS forceZeroFlag forSignature =
     (let hasWit = (truthy ALLOW_WITNESS \<and> hasWitnesses t)
      in le_bytes 4 (unat (version t)) @
         (if truthy forSignature then []
          else if hasWit \<and> \<not> truthy forceZeroFlag then [1] else [0]) @
         ins_bytes t @
         (if truthy forSignature \<and> hasWit then outs_bytes_sig t else outs_bytes t) @
         le_bytes 4 (unat (locktime t)) @
         (if \<not> truthy forSignature \<and> hasWit then witness_suffix t else []))"

text \<open>A writer is in range when its offset is within its buffer.\<close>

definition winv :: "BufferWriter \<Rightarrow> bool" where
  "winv w = (BufferWriter.offset w \<le> length (BufferWriter.buffer w))"

text \<open>\<open>is_put f bs\<close>: on every writer in range, \<open>f\<close> is the single write of \<open>bs\<close>.\<close>

definition is_put :: "(BufferWriter \<Rightarrow> error + BufferWriter) \<Rightarrow> Buffer \<Rightarrow> bool" where
  "is_put f bs = (\<forall>w. winv w \<longrightarrow> f w = writeSlice bs w)"

section \<open>The sizes that the oracle counts\<close>

text \<open>The size oracle as sums over the inputs and outputs.\<close>

definition txIn_size :: "Input \<Rightarrow> nat" where
  "txIn_size x =
     40 + varSliceSize (Input.script x) +
     (case issuance x of None \<Rightarrow> 0 | Some i \<Rightarrow> 64 + length (assetAmount i) + length (tokenAmount i))"

definition txOut_size :: "Output \<Rightarrow> nat" where
  "txOut_size x = length (asset x) + length (Output.value x) + length (nonce x) + varSliceSize (Output.script x)"

text \<open>
  The fixed sizes that the oracle assumes: 32-byte previous hashes, and 32-byte
  blinding nonce and entropy in an issuance.
\<close>

definition sized_in :: "Input \<Rightarrow> bool" where
  "sized_in x =
     (length (hash x) = 32 \<and>
      (case issuance x of None \<Rightarrow> True
       | Some i \<Rightarrow> length (assetBlindingNonce i) = 32 \<and> length (assetEntropy i) = 32))"

section \<open>What a reader finds at its offset\<close>

text \<open>\<open>at r bs\<close>: the reader is within its buffer and the bytes from its offset on are \<open>bs\<close>.\<close>

definition at :: "BufferReader \<Rightarrow> Buffer \<Rightarrow> bool" where
  "at r bs =
     (BufferReader.offset r \<le> length (BufferReader.buffer r) \<and>
      drop (BufferReader.offset r) (BufferReader.buffer r) = bs)"

definition advance :: "nat \<Rightarrow> BufferReader \<Rightarrow> BufferReader" where
  "advance n r = r\<lparr>BufferReader.offset := BufferReader.offset r + n\<rparr>"

text \<open>
  \<open>reads m bs v\<close>: wherever the bytes \<open>bs\<close> are found at the offset, whatever follows
  them, \<open>m\<close> returns \<open>v\<close> and moves the offset past them.
\<close>

definition reads :: "(BufferReader \<Rightarrow> error + ('a \<times> BufferReader)) \<Rightarrow> Buffer \<Rightarrow> 'a \<Rightarrow> bool" where
  "reads m bs v = (\<forall>r rest. at r (bs @ rest) \<longrightarrow> m r = Inr (v, advance (length bs) r))"

section \<open>Wire-encodable transactions\<close>

text \<open>
  The fields that the wire format can carry, after sections 3 and 4.2 of the
  specification: lengths that fit in a varint, 32-byte hashes, and confidential
  fields with the documented prefix bytes and widths.
\<close>

definition fits :: "nat \<Rightarrow> bool" where
  "fits n = (n < 2 ^ 64)"

definition wf_slice :: "Buffer \<Rightarrow> bool" where
  "wf_slice bs = fits (length bs)"

definition wf_vector :: "Buffer list \<Rightarrow> bool" where
  "wf_vector v = (fits (length v) \<and> list_all wf_slice v)"

definition wf_asset :: "Buffer \<Rightarrow> bool" where
  "wf_asset a = (length a = 33 \<and> (hd a = 0x01 \<or> hd a = 0x0a \<or> hd a = 0x0b))"

definition wf_value :: "Buffer \<Rightarrow> bool" where
  "wf_value v =
     (v = [0x00] \<or> (length v = 9 \<and> hd v = 0x01) \<or> (length v = 33 \<and> (hd v = 0x08 \<or> hd v = 0x09)))"

definition wf_nonce :: "Buffer \<Rightarrow> bool" where
  "wf_nonce n = (n = [0x00] \<or> (length n = 33 \<and> (hd n = 0x02 \<or> hd n = 0x03)))"

definition wf_issuance :: "Issuance option \<Rightarrow> bool" where
  "wf_issuance iss =
     (case iss of
        None \<Rightarrow> True
      | Some i \<Rightarrow> length (assetBlindingNonce i) = 32 \<and> length (assetEntropy i) = 32 \<and>
                  wf_value (assetAmount i) \<and> wf_value (tokenAmount i))"

text \<open>
  A logical index is below \<open>2 ^ 30\<close> and, with its flag bits, is not the sentinel
  (the index \<open>2 ^ 30 - 1\<close> with both flags is written as \<open>0xFFFFFFFF\<close>); the sentinel
  itself carries no flags.
\<close>

definition logical_index :: "Input \<Rightarrow> bool" where
  "logical_index x =
     (index x < 2 ^ 30 \<and> \<not> (index x = 0x3FFFFFFF \<and> isPegin x \<and> issuance x \<noteq> None))"

definition wf_index :: "Input \<Rightarrow> bool" where
  "wf_index x =
     (if index x = MINUS_1 then issuance x = None \<and> \<not> isPegin x else logical_index x)"

definition wf_txIn :: "Input \<Rightarrow> bool" where
  "wf_txIn x =
     (length (hash x) = 32 \<and> wf_index x \<and> wf_slice (Input.script x) \<and> wf_issuance (issuance x) \<and>
      wf_slice (issuanceRangeProof x) \<and> wf_slice (inflationRangeProof x) \<and>
      wf_vector (witness x) \<and> wf_vector (peginWitness x))"

definition wf_txOut :: "Output \<Rightarrow> bool" where
  "wf_txOut x =
     (wf_asset (asset x) \<and> wf_value (Output.value x) \<and> wf_nonce (nonce x) \<and>
      wf_slice (Output.script x) \<and> wf_slice (rangeProof x) \<and> wf_slice (surjectionProof x))"

text \<open>What \<^verbatim>\<open>fromBuffer\<close> gives an input or output before it reads the witness suffix.\<close>

definition bare_txIn :: "Input \<Rightarrow> Input" where
  "bare_txIn x =
     x\<lparr>witness := EMPTY_WITNESS, peginWitness := EMPTY_WITNESS,
       issuanceRangeProof := EMPTY_BUFFER, inflationRangeProof := EMPTY_BUFFER\<rparr>"

definition bare_txOut :: "Output \<Rightarrow> Output" where
  "bare_txOut x = x\<lparr>rangeProof := EMPTY_BUFFER, surjectionProof := EMPTY_BUFFER\<rparr>"

text \<open>
  A wire-encodable transaction: encodable inputs and outputs, and a flag that says
  whether it has witnesses; one without witnesses has no witness or proof data.
\<close>

definition wf_tx :: "Transaction \<Rightarrow> bool" where
  "wf_tx t =
     (fits (length (ins t)) \<and> fits (length (outs t)) \<and>
      list_all wf_txIn (ins t) \<and> list_all wf_txOut (outs t) \<and>
      (if hasWitnesses t then flag t = 1
       else flag t = 0 \<and> list_all (\<lambda>x. bare_txIn x = x) (ins t) \<and>
            list_all (\<lambda>x. bare_txOut x = x) (outs t)))"

section \<open>\<^verbatim>\<open>hashForWitnessV1\<close>\<close>

text \<open>
  Modelled from the spec: \<^verbatim>\<open>BufferWriter.withCapacity\<close> of \<^verbatim>\<open>./bufferutils\<close> is not among
  the sources. By the specification such a writer is pre-sized by the capacity and
  grown by appending, so its \<^verbatim>\<open>end()\<close> is the concatenation of what was written to
  it, and the capacity has no part in the result. \<^verbatim>\<open>sha256\<close> and \<^verbatim>\<open>taggedHash\<close> of
  \<^verbatim>\<open>./crypto\<close> are parameters.
\<close>

definition getOutputWitnessesSHA256 :: "(Buffer \<Rightarrow> Buffer) \<Rightarrow> Output list \<Rightarrow> Buffer" where
  "getOutputWitnessesSHA256 sha256 outs' =
     sha256 (concat (map (\<lambda>out. varslice (surjectionProof out) @ varslice (rangeProof out)) outs'))"

definition getIssuanceProofsSHA256 :: "(Buffer \<Rightarrow> Buffer) \<Rightarrow> Input list \<Rightarrow> Buffer" where
  "getIssuanceProofsSHA256 sha256 ins' =
     sha256 (concat (map (\<lambda>input. varslice (issuanceRangeProof input) @
                                   varslice (inflationRangeProof input)) ins'))"

definition getSpentAssetsAmountsSHA256 :: "(Buffer \<Rightarrow> Buffer) \<Rightarrow> (Buffer \<times> Buffer) list \<Rightarrow> Buffer" where
  "getSpentAssetsAmountsSHA256 sha256 outs' =
     sha256 (concat (map (\<lambda>(asset', value'). asset' @ value') outs'))"

definition getInputFlag :: "Input \<Rightarrow> u32" where
  "getInputFlag input =
     (if issuance input \<noteq> None then drop_bit 24 OUTPOINT_ISSUANCE_FLAG else 0) OR
     (if isPegin input then drop_bit 24 OUTPOINT_PEGIN_FLAG else 0)"

definition getOutpointFlagsSHA256 :: "(Buffer \<Rightarrow> Buffer) \<Rightarrow> Input list \<Rightarrow> Buffer" where
  "getOutpointFlagsSHA256 sha256 ins' =
     sha256 (concat (map (\<lambda>input. le_bytes 1 (unat (getInputFlag input))) ins'))"

definition getIssuanceSize :: "Input \<Rightarrow> nat" where
  "getIssuanceSize txIn =
     (case issuance txIn of
        Some i \<Rightarrow> length (assetBlindingNonce i) + length (assetEntropy i) +
                  length (assetAmount i) + length (tokenAmount i)
      | None \<Rightarrow> 0)"

definition getPrevoutsSHA256 :: "(Buffer \<Rightarrow> Buffer) \<Rightarrow> Input list \<Rightarrow> Buffer" where
  "getPrevoutsSHA256 sha256 inputs =
     sha256 (concat (map (\<lambda>i. hash i @ le_bytes 4 (unat (index i))) inputs))"

text \<open>
  \<^verbatim>\<open>scripts.map(varSliceSize).reduce((a, b) => a + b)\<close> has no initial value: on an
  empty array \<^verbatim>\<open>reduce\<close> throws a \<^verbatim>\<open>TypeError\<close>.
\<close>

definition getPrevoutScriptsSHA256 :: "(Buffer \<Rightarrow> Buffer) \<Rightarrow> Buffer list \<Rightarrow> error + Buffer" where
  "getPrevoutScriptsSHA256 sha256 scripts =
     (if scripts = [] then Inl TypeError else Inr (sha256 (concat (map varslice scripts))))"

definition getSequenceSHA256 :: "(Buffer \<Rightarrow> Buffer) \<Rightarrow> Input list \<Rightarrow> Buffer" where
  "getSequenceSHA256 sha256 inputs =
     sha256 (concat (map (\<lambda>txIn. le_bytes 4 (unat (sequence txIn))) inputs))"

definition issuance_fields :: "Input \<Rightarrow> Buffer" where
  "issuance_fields txIn =
     (case issuance txIn of
        Some i \<Rightarrow> assetBlindingNonce i @ assetEntropy i @ assetAmount i @ tokenAmount i
      | None \<Rightarrow> [0])"

definition getIssuanceSHA256 :: "(Buffer \<Rightarrow> Buffer) \<Rightarrow> Input list \<Rightarrow> Buffer" where
  "getIssuanceSHA256 sha256 inputs = sha256 (concat (map issuance_fields inputs))"

definition getOutputsSHA256 :: "(Buffer \<Rightarrow> Buffer) \<Rightarrow> Output list \<Rightarrow> Buffer" where
  "getOutputsSHA256 sha256 outputs =
     sha256 (concat (map (\<lambda>out. asset out @ Output.value out @ nonce out @ varslice (Output.script out))
                      outputs))"

text \<open>
  \<^verbatim>\<open>inputPartSize\<close> (lines 525 to 534): with \<^verbatim>\<open>SIGHASH_ANYONECANPAY\<close> it reads
  \<^verbatim>\<open>prevoutAssetsValues[inIndex]\<close>, \<^verbatim>\<open>prevOutScripts[inIndex]\<close> and \<^verbatim>\<open>this.ins[inIndex]\<close>, and
  a property read on one that is \<^verbatim>\<open>undefined\<close> throws a \<^verbatim>\<open>TypeError\<close>.
\<close>

definition inputPartSize ::
  "Transaction \<Rightarrow> nat \<Rightarrow> Buffer list \<Rightarrow> (Buffer \<times> Buffer) list \<Rightarrow> bool \<Rightarrow> error + nat" where
  "inputPartSize t inIndex prevOutScripts prevoutAssetsValues isAnyoneCanPay =
     (if isAnyoneCanPay
      then (if inIndex < length prevoutAssetsValues \<and> inIndex < length prevOutScripts \<and>
               inIndex < length (ins t)
            then Inr (1 + 32 + 4 +
                      length (fst (prevoutAssetsValues ! inIndex)) +
                      length (snd (prevoutAssetsValues ! inIndex)) +
                      varSliceSize (prevOutScripts ! inIndex) + 4 +
                      (if issuance (ins t ! inIndex) \<noteq> None then getIssuanceSize (ins t ! inIndex) else 1))
            else Inl TypeError)
      else Inr 4)"

text \<open>
  The part of the message for the input (lines 571 to 603), read after
  \<open>inputPartSize\<close> has found the three entries at \<open>inIndex\<close>.
\<close>

definition input_part ::
  "(Buffer \<Rightarrow> Buffer) \<Rightarrow> Transaction \<Rightarrow> nat \<Rightarrow> Buffer list \<Rightarrow> (Buffer \<times> Buffer) list \<Rightarrow> bool \<Rightarrow> Buffer" where
  "input_part sha256 t inIndex prevOutScripts prevoutAssetsValues isAnyoneCanPay =
     (if isAnyoneCanPay
      then (let input = ins t ! inIndex
            in le_bytes 1 (unat (getInputFlag input)) @ hash input @ le_bytes 4 (unat (index input)) @
               fst (prevoutAssetsValues ! inIndex) @ snd (prevoutAssetsValues ! inIndex) @
               varslice (prevOutScripts ! inIndex) @ le_bytes 4 (unat (sequence input)) @
               (case issuance input of
                  Some i \<Rightarrow>
                    assetBlindingNonce i @ assetEntropy i @ assetAmount i @ tokenAmount i @
                    sha256 (varslice (issuanceRangeProof input) @ varslice (inflationRangeProof input))
                | None \<Rightarrow> [0]))
      else le_bytes 4 inIndex)"

text \<open>
  \<^verbatim>\<open>hashForWitnessV1\<close> (lines 456 to 623), on a transaction whose inputs and outputs
  have their proofs. The arguments are typed as the \<^verbatim>\<open>typeforce\<close> check of line 465
  wants them, a pair of \<open>prevoutAssetsValues\<close> is an asset and a value, and a buffer
  is truthy whatever its length. The only test on the lengths of the companion
  arrays is that of line 475, on \<open>prevOutScripts\<close>. \<^verbatim>\<open>writeUInt8\<close> throws a
  \<^verbatim>\<open>RangeError\<close> on a \<open>hashType\<close> above 255.
\<close>

definition hashForWitnessV1 ::
  "(Buffer \<Rightarrow> Buffer) \<Rightarrow> (string \<Rightarrow> Buffer \<Rightarrow> Buffer) \<Rightarrow> Transaction \<Rightarrow> nat \<Rightarrow> Buffer list \<Rightarrow>
   (Buffer \<times> Buffer) list \<Rightarrow> u32 \<Rightarrow> Buffer \<Rightarrow> Buffer option \<Rightarrow> Buffer option \<Rightarrow> error + Buffer" where
  "hashForWitnessV1 sha256 taggedHash t inIndex prevOutScripts prevoutAssetsValues hashType
       genesisBlockHash leafHash annex =
     (if length prevOutScripts \<noteq> length (ins t) then Inl MismatchedPrevouts
      else
        let outputType = (if hashType = SIGHASH_DEFAULT then SIGHASH_ALL
                          else hashType AND SIGHASH_OUTPUT_MASK);
            inputType = hashType AND SIGHASH_INPUT_MASK;
            isAnyoneCanPay = (inputType = SIGHASH_ANYONECANPAY);
            isNone = (outputType = SIGHASH_NONE);
            isSingle = (outputType = SIGHASH_SINGLE)
        in
          case (if \<not> isAnyoneCanPay then getPrevoutScriptsSHA256 sha256 prevOutScripts
                else Inr EMPTY_BUFFER) of
            Inl e \<Rightarrow> Inl e
          | Inr hashScriptPubKeys \<Rightarrow>
              let output = (if \<not> (isNone \<or> isSingle) then Some (outs t)
                            else if isSingle \<and> inIndex < length (outs t) then Some [outs t ! inIndex]
                            else None);
                  hashOutputs = (case output of Some os \<Rightarrow> getOutputsSHA256 sha256 os
                                 | None \<Rightarrow> EMPTY_BUFFER);
                  hashOutputsWitnesses = (case output of Some os \<Rightarrow> getOutputWitnessesSHA256 sha256 os
                                          | None \<Rightarrow> EMPTY_BUFFER);
                  spendType = (if leafHash \<noteq> None then 2 else 0) + (if annex \<noteq> None then 1 else 0)
              in
                (case inputPartSize t inIndex prevOutScripts prevoutAssetsValues isAnyoneCanPay of
                  Inl e \<Rightarrow> Inl e
                | Inr _ \<Rightarrow>
                    if \<not> hashType \<le> 0xff then Inl RangeError
                    else
                      Inr (taggedHash ''TapSighash/elements''
                        (genesisBlockHash @ genesisBlockHash @
                         le_bytes 1 (unat hashType) @
                         le_bytes 4 (unat (version t)) @
                         le_bytes 4 (unat (locktime t)) @
                         (if \<not> isAnyoneCanPay
                          then getOutpointFlagsSHA256 sha256 (ins t) @
                               getPrevoutsSHA256 sha256 (ins t) @
                               getSpentAssetsAmountsSHA256 sha256 prevoutAssetsValues @
                               hashScriptPubKeys @
                               getSequenceSHA256 sha256 (ins t) @
                               getIssuanceSHA256 sha256 (ins t) @
                               getIssuanceProofsSHA256 sha256 (ins t)
                          else []) @
                         (if \<not> (isNone \<or> isSingle) then hashOutputs @ hashOutputsWitnesses else []) @
                         le_bytes 1 spendType @
                         input_part sha256 t inIndex prevOutScripts prevoutAssetsValues isAnyoneCanPay @
                         (case annex of Some a \<Rightarrow> sha256 (varslice a) | None \<Rightarrow> []) @
                         (if isSingle then hashOutputs @ hashOutputsWitnesses else []) @
                         (case leafHash of
                            Some l \<Rightarrow> l @ le_bytes 1 0 @ le_bytes 4 (unat (0xffffffff :: u32))
                          | None \<Rightarrow> [])))))"

section \<open>Assertions on heaps\<close>

text \<open>\<open>frame h0 h\<close>: the heap \<open>h\<close> is \<open>h0\<close> with objects allocated behind it.\<close>

definition frame :: "heap \<Rightarrow> heap \<Rightarrow> bool" where
  "frame h0 h = (length h0 \<le> length h \<and> take (length h0) h = h0)"

text \<open>
  \<open>hoare P m Q E\<close>: from a heap with \<open>P\<close>, the computation \<open>m\<close> either returns a
  value \<open>v\<close> and a heap with \<open>Q v\<close>, or throws and leaves a heap with \<open>E\<close>.
\<close>

definition hoare :: "(heap \<Rightarrow> bool) \<Rightarrow> 'a hm \<Rightarrow> ('a \<Rightarrow> heap \<Rightarrow> bool) \<Rightarrow> (heap \<Rightarrow> bool) \<Rightarrow> bool" where
  "hoare P m Q E = (\<forall>h. P h \<longrightarrow> (case m h of (Inl e, h') \<Rightarrow> E h' | (Inr v, h') \<Rightarrow> Q v h'))"

text \<open>
  \<open>fresh_tx h0 x h\<close>: in \<open>h\<close>, which extends \<open>h0\<close>, the reference \<open>x\<close> is to a
  transaction allocated after \<open>h0\<close>, whose two arrays are distinct and allocated
  after \<open>h0\<close>, as is every input in its array of inputs.
\<close>

definition fresh_tx :: "heap \<Rightarrow> addr \<Rightarrow> heap \<Rightarrow> bool" where
  "fresh_tx h0 x h =
     (frame h0 h \<and> length h0 \<le> x \<and> x < length h \<and>
      (\<exists>t. h ! x = TransactionObj t \<and>
           length h0 \<le> t_ins t \<and> t_ins t < length h \<and>
           length h0 \<le> t_outs t \<and> t_outs t < length h \<and> t_ins t \<noteq> t_outs t \<and>
           (\<exists>xs. h ! t_ins t = ArrayObj xs \<and> (\<forall>a\<in>set xs. length h0 \<le> a))))"

text \<open>The kinds of object behind a reference.\<close>

definition is_Input :: "heap \<Rightarrow> addr \<Rightarrow> bool" where
  "is_Input h a = (a < length h \<and> (case h ! a of InputObj _ \<Rightarrow> True | _ \<Rightarrow> False))"

definition is_Output :: "heap \<Rightarrow> addr \<Rightarrow> bool" where
  "is_Output h a = (a < length h \<and> (case h ! a of OutputObj _ \<Rightarrow> True | _ \<Rightarrow> False))"

text \<open>
  \<open>tx_in_heap h this\<close>: \<open>this\<close> is a reference to a transaction of \<open>h\<close> whose \<^verbatim>\<open>ins\<close> is
  an array of inputs of \<open>h\<close> and whose \<^verbatim>\<open>outs\<close> is an array of outputs of \<open>h\<close>.
  \<open>ins_of\<close> and \<open>outs_of\<close> are the two arrays.
\<close>

definition ins_of :: "heap \<Rightarrow> addr \<Rightarrow> addr list" where
  "ins_of h this =
     (case h ! this of
        TransactionObj t \<Rightarrow> (case h ! t_ins t of ArrayObj xs \<Rightarrow> xs | _ \<Rightarrow> [])
      | _ \<Rightarrow> [])"

definition outs_of :: "heap \<Rightarrow> addr \<Rightarrow> addr list" where
  "outs_of h this =
     (case h ! this of
        TransactionObj t \<Rightarrow> (case h ! t_outs t of ArrayObj xs \<Rightarrow> xs | _ \<Rightarrow> [])
      | _ \<Rightarrow> [])"

definition tx_in_heap :: "heap \<Rightarrow> addr \<Rightarrow> bool" where
  "tx_in_heap h this =
     (this < length h \<and>
      (case h ! this of
         TransactionObj t \<Rightarrow>
           t_ins t < length h \<and> t_outs t < length h \<and>
           (case h ! t_ins t of ArrayObj xs \<Rightarrow> list_all (is_Input h) xs | _ \<Rightarrow> False) \<and>
           (case h ! t_outs t of ArrayObj xs \<Rightarrow> list_all (is_Output h) xs | _ \<Rightarrow> False)
       | _ \<Rightarrow> False))"

section \<open>The writes of \<^verbatim>\<open>__toBuffer\<close> are one write of the wire image\<close>

lemma writeSlice_winv: "writeSlice bs w = Inr w' \<Longrightarrow> winv w'"
  by (auto simp: writeSlice_def winv_def split: if_splits)

lemma writeSlice_append:
  assumes "winv w"
  shows "(case writeSlice a w of Inl e \<Rightarrow> Inl e | Inr w' \<Rightarrow> writeSlice b w') = writeSlice (a @ b) w"
proof (cases "BufferWriter.offset w + length a + length b \<le> length (BufferWriter.buffer w)")
  case True
  let ?o = "BufferWriter.offset w" and ?B = "BufferWriter.buffer w"
  have 1: "take (?o + length a) (take ?o ?B @ a @ drop (?o + length a) ?B) = take ?o ?B @ a"
    using True by simp
  have 2: "drop (?o + length a + length b) (take ?o ?B @ a @ drop (?o + length a) ?B)
             = drop (?o + length a + length b) ?B"
    using True by (simp add: add.commute add.left_commute)
  show ?thesis
    using True 1 2 by (simp add: writeSlice_def add.assoc)
next
  case False
  then show ?thesis
    by (simp add: writeSlice_def)
qed

lemma writeSlice_Nil: "winv w \<Longrightarrow> writeSlice [] w = Inr w"
  by (simp add: writeSlice_def winv_def)

lemma is_put_writeSlice: "is_put (writeSlice bs) bs"
  by (simp add: is_put_def)

lemma is_put_Inr: "is_put Inr []"
  by (simp add: is_put_def writeSlice_Nil)

lemma is_put_wseq_Nil: "is_put (wseq []) []"
  by (simp add: is_put_def writeSlice_Nil)

lemma is_put_wseq_Cons:
  assumes "is_put f a" and "is_put (wseq fs) b"
  shows "is_put (wseq (f # fs)) (a @ b)"
proof (unfold is_put_def, intro allI impI)
  fix w assume w: "winv w"
  have "wseq (f # fs) w = (case writeSlice a w of Inl e \<Rightarrow> Inl e | Inr w' \<Rightarrow> wseq fs w')"
    using assms(1) w by (simp add: is_put_def)
  also have "\<dots> = (case writeSlice a w of Inl e \<Rightarrow> Inl e | Inr w' \<Rightarrow> writeSlice b w')"
    using assms(2) by (auto simp: is_put_def split: sum.splits dest: writeSlice_winv)
  also have "\<dots> = writeSlice (a @ b) w"
    using w by (rule writeSlice_append)
  finally show "wseq (f # fs) w = writeSlice (a @ b) w" .
qed

lemma is_put_wforEach:
  assumes "\<And>x. is_put (f x) (g x)"
  shows "is_put (wforEach f xs) (concat (map g xs))"
proof (induction xs)
  case Nil
  show ?case by (simp add: is_put_def writeSlice_Nil)
next
  case (Cons x xs)
  show ?case
  proof (unfold is_put_def, intro allI impI)
    fix w assume w: "winv w"
    have "wforEach f (x # xs) w = (case writeSlice (g x) w of Inl e \<Rightarrow> Inl e | Inr w' \<Rightarrow> wforEach f xs w')"
      using assms [of x] w by (simp add: is_put_def)
    also have "\<dots> = (case writeSlice (g x) w of Inl e \<Rightarrow> Inl e
                       | Inr w' \<Rightarrow> writeSlice (concat (map g xs)) w')"
      using Cons.IH by (auto simp: is_put_def split: sum.splits dest: writeSlice_winv)
    also have "\<dots> = writeSlice (g x @ concat (map g xs)) w"
      using w by (rule writeSlice_append)
    finally show "wforEach f (x # xs) w = writeSlice (concat (map g (x # xs))) w"
      by simp
  qed
qed

lemma is_put_if: "is_put f a \<Longrightarrow> is_put g b \<Longrightarrow> is_put (if c then f else g) (if c then a else b)"
  by simp

lemma is_put_cong: "is_put f a \<Longrightarrow> a = b \<Longrightarrow> is_put f b"
  by simp

lemma is_put_writeVarSlice: "is_put (writeVarSlice bs) (varslice bs)"
proof -
  have "is_put (wseq [writeSlice (varint (length bs)), writeSlice bs]) (varint (length bs) @ bs @ [])"
    by (intro is_put_wseq_Cons is_put_wseq_Nil is_put_writeSlice)
  then show ?thesis
    by (simp add: writeVarSlice_def varslice_def writeVarInt_def)
qed

lemma is_put_writeVector: "is_put (writeVector v) (vector_bytes v)"
proof -
  have "is_put (wseq [writeSlice (varint (length v)), wforEach writeVarSlice v])
          (varint (length v) @ concat (map varslice v) @ [])"
    by (intro is_put_wseq_Cons is_put_wseq_Nil is_put_writeSlice is_put_wforEach is_put_writeVarSlice)
  then show ?thesis
    by (simp add: writeVector_def vector_bytes_def writeVarInt_def)
qed

lemma is_put_inFields: "is_put (writeConfidentialInFields x) (inFields_bytes x)"
proof -
  have "is_put (wseq [writeVarSlice (issuanceRangeProof x), writeVarSlice (inflationRangeProof x),
                      writeVector (witness x), writeVector (peginWitness x)])
          (varslice (issuanceRangeProof x) @ varslice (inflationRangeProof x) @
           vector_bytes (witness x) @ vector_bytes (peginWitness x) @ [])"
    by (intro is_put_wseq_Cons is_put_wseq_Nil is_put_writeVarSlice is_put_writeVector)
  then show ?thesis
    by (simp add: writeConfidentialInFields_def inFields_bytes_def)
qed

lemma is_put_outFields: "is_put (writeConfidentialOutFields x) (outFields_bytes x)"
proof -
  have "is_put (wseq [writeVarSlice (surjectionProof x), writeVarSlice (rangeProof x)])
          (varslice (surjectionProof x) @ varslice (rangeProof x) @ [])"
    by (intro is_put_wseq_Cons is_put_wseq_Nil is_put_writeVarSlice)
  then show ?thesis
    by (simp add: writeConfidentialOutFields_def outFields_bytes_def)
qed

lemma is_put_issuance:
  "is_put (case iss of None \<Rightarrow> Inr
           | Some i \<Rightarrow> wseq [writeSlice (assetBlindingNonce i), writeSlice (assetEntropy i),
                             writeSlice (assetAmount i), writeSlice (tokenAmount i)])
          (issuance_bytes iss)"
proof (cases iss)
  case None
  then show ?thesis by (simp add: issuance_bytes_def is_put_Inr)
next
  case (Some i)
  have "is_put (wseq [writeSlice (assetBlindingNonce i), writeSlice (assetEntropy i),
                      writeSlice (assetAmount i), writeSlice (tokenAmount i)])
          (assetBlindingNonce i @ assetEntropy i @ assetAmount i @ tokenAmount i @ [])"
    by (intro is_put_wseq_Cons is_put_wseq_Nil is_put_writeSlice)
  then show ?thesis using Some by (simp add: issuance_bytes_def)
qed

lemma is_put_txIn: "is_put (toBuffer_txIn x) (txIn_bytes x)"
proof -
  have "is_put (wseq [writeSlice (hash x), writeSlice (le_bytes 4 (unat (wire_index x))),
                      writeVarSlice (Input.script x), writeSlice (le_bytes 4 (unat (sequence x))),
                      (case issuance x of None \<Rightarrow> Inr
                       | Some i \<Rightarrow> wseq [writeSlice (assetBlindingNonce i), writeSlice (assetEntropy i),
                                         writeSlice (assetAmount i), writeSlice (tokenAmount i)])])
          (hash x @ le_bytes 4 (unat (wire_index x)) @ varslice (Input.script x) @
           le_bytes 4 (unat (sequence x)) @ issuance_bytes (issuance x) @ [])"
    by (intro is_put_wseq_Cons is_put_wseq_Nil is_put_writeSlice is_put_writeVarSlice is_put_issuance)
  then show ?thesis
    by (simp add: toBuffer_txIn_def txIn_bytes_def wire_index_def writeUInt32_def Let_def)
qed

lemma le_bytes_zero: "le_bytes n 0 = replicate n 0"
  by (induction n) simp_all

lemma is_put_txOut: "is_put (toBuffer_txOut sub x) (if sub then txOut_bytes_sig x else txOut_bytes x)"
proof (cases sub)
  case True
  have "is_put (wseq [writeSlice (asset x), writeSlice (replicate 1 0), writeSlice (nonce x),
                      writeSlice (le_bytes 8 0), writeVarSlice (Output.script x)])
          (asset x @ replicate 1 0 @ nonce x @ le_bytes 8 0 @ varslice (Output.script x) @ [])"
    by (intro is_put_wseq_Cons is_put_wseq_Nil is_put_writeSlice is_put_writeVarSlice)
  then show ?thesis
    using True by (simp add: toBuffer_txOut_def txOut_bytes_sig_def writeUInt64_def le_bytes_zero)
next
  case False
  have "is_put (wseq [writeSlice (asset x), writeSlice (Output.value x), writeSlice (nonce x),
                      Inr, writeVarSlice (Output.script x)])
          (asset x @ Output.value x @ nonce x @ [] @ varslice (Output.script x) @ [])"
    by (intro is_put_wseq_Cons is_put_wseq_Nil is_put_writeSlice is_put_writeVarSlice is_put_Inr)
  then show ?thesis
    using False by (simp add: toBuffer_txOut_def txOut_bytes_def)
qed

lemma is_put_toBuffer_writes:
  "is_put (toBuffer_writes t a fz fs) (tx_bytes t a fz fs)"
proof -
  define hw where "hw = (truthy a \<and> hasWitnesses t)"
  define F where "F = wseq [
           writeSlice (le_bytes 4 (unat (version t))),
           (if \<not> truthy fs
            then writeSlice (le_bytes 1 (unat (if hw \<and> \<not> truthy fz then 0 OR ADVANCED_TRANSACTION_FLAG else 0)))
            else Inr),
           writeSlice (varint (length (ins t))),
           wforEach toBuffer_txIn (ins t),
           writeSlice (varint (length (outs t))),
           wforEach (toBuffer_txOut (truthy fs \<and> hw)) (outs t),
           writeSlice (le_bytes 4 (unat (locktime t))),
           (if \<not> truthy fs \<and> hw
            then wseq [wforEach writeConfidentialInFields (ins t),
                       wforEach writeConfidentialOutFields (outs t)]
            else Inr)]"
  define A where "A = le_bytes 4 (unat (version t)) @
          (if \<not> truthy fs
           then le_bytes 1 (unat (if hw \<and> \<not> truthy fz then 0 OR ADVANCED_TRANSACTION_FLAG else 0))
           else []) @
          varint (length (ins t)) @
          concat (map txIn_bytes (ins t)) @
          varint (length (outs t)) @
          concat (map (\<lambda>x. if truthy fs \<and> hw then txOut_bytes_sig x else txOut_bytes x) (outs t)) @
          le_bytes 4 (unat (locktime t)) @
          (if \<not> truthy fs \<and> hw
           then concat (map inFields_bytes (ins t)) @ concat (map outFields_bytes (outs t)) @ []
           else []) @ []"
  have "is_put F A"
    unfolding F_def A_def
    by (intro is_put_wseq_Cons is_put_wseq_Nil is_put_writeSlice is_put_if is_put_Inr
        is_put_wforEach is_put_txIn is_put_txOut is_put_inFields is_put_outFields)
  moreover have "toBuffer_writes t a fz fs = F"
    by (simp add: toBuffer_writes_def F_def hw_def Let_def writeInt32_def writeUInt8_def
        writeUInt32_def writeVarInt_def)
  moreover have "tx_bytes t a fz fs = A"
    unfolding tx_bytes_def A_def Let_def hw_def [symmetric]
    by (cases hw; cases "truthy fs")
       (simp_all add: ins_bytes_def outs_bytes_def outs_bytes_sig_def witness_suffix_def
        ADVANCED_TRANSACTION_FLAG_def)
  ultimately show ?thesis
    by simp
qed

lemma toBuffer_writes_eq: "toBuffer_writes t a fz fs w = writeSlice (tx_bytes t a fz fs) w"
proof (cases "winv w")
  case True
  then show ?thesis
    using is_put_toBuffer_writes [of t a fz fs] by (simp add: is_put_def)
next
  case False
  have "toBuffer_writes t a fz fs w = Inl Truncated"
    using False by (simp add: toBuffer_writes_def Let_def writeInt32_def writeSlice_def winv_def)
  moreover have "writeSlice (tx_bytes t a fz fs) w = Inl Truncated"
    using False by (simp add: writeSlice_def winv_def)
  ultimately show ?thesis by simp
qed

lemma toBuffer_priv_Some:
  "toBuffer_priv junk (Some buf) (Some i) a fz fs t =
     (if i + length (tx_bytes t a fz fs) \<le> length buf then Inr (tx_bytes t a fz fs) else Inl Truncated)"
  by (simp add: toBuffer_priv_def toBuffer_writer_def toBuffer_writes_eq writeSlice_def Buffer_slice_def)

lemma length_allocUnsafe: "length (allocUnsafe junk n) = n"
  by (simp add: allocUnsafe_def)

lemma toBuffer_priv_None:
  "toBuffer_priv junk None None a fz fs t =
     (if length (tx_bytes t a fz fs) \<le> byteLength_priv t a fs
      then Inr (tx_bytes t a fz fs @
                drop (length (tx_bytes t a fz fs)) (allocUnsafe junk (byteLength_priv t a fs)))
      else Inl Truncated)"
  by (simp add: toBuffer_priv_def toBuffer_writer_def toBuffer_writes_eq writeSlice_def Let_def
      length_allocUnsafe)

lemma length_le_bytes: "length (le_bytes k n) = k"
  by (induction k arbitrary: n) simp_all

lemma length_varint: "length (varint n) = encodingLength n"
  by (simp add: varint_def encodingLength_def length_le_bytes)

lemma length_varslice: "length (varslice bs) = varSliceSize bs"
  by (simp add: varslice_def varSliceSize_def length_varint)

lemma fold_add: "(\<And>x s. g x s = s + f x) \<Longrightarrow> fold g xs s0 = s0 + sum_list (map f xs)"
  by (induction xs arbitrary: s0) (simp_all add: ac_simps)

lemma length_concat_map: "length (concat (map f xs)) = sum_list (map (\<lambda>x. length (f x)) xs)"
  by (induction xs) simp_all

lemma length_vector_bytes:
  "length (vector_bytes v) = encodingLength (length v) + sum_list (map varSliceSize v)"
  by (simp add: vector_bytes_def length_varint length_concat_map length_varslice)

lemma byteLength_priv_sum:
  "byteLength_priv t a fs =
     8 + (if truthy fs then 0 else 1) + encodingLength (length (ins t)) + encodingLength (length (outs t)) +
     sum_list (map txIn_size (ins t)) + sum_list (map txOut_size (outs t)) +
     (if truthy a \<and> hasWitnesses t
      then sum_list (map (\<lambda>x. length (inFields_bytes x)) (ins t)) +
           sum_list (map (\<lambda>x. length (outFields_bytes x)) (outs t))
      else 0)"
proof -
  have 1: "\<And>s0. fold (\<lambda>txIn sz.
                 (let sz = sz + (40 + varSliceSize (Input.script txIn))
                  in case issuance txIn of
                       None \<Rightarrow> sz
                     | Some i \<Rightarrow> sz + (64 + length (assetAmount i) + length (tokenAmount i))))
               (ins t) s0 = s0 + sum_list (map txIn_size (ins t))"
    by (rule fold_add) (simp add: txIn_size_def Let_def split: option.splits)
  have 2: "\<And>s0. fold (\<lambda>txOut sz.
                 sz + (length (asset txOut) + length (Output.value txOut) + length (nonce txOut) +
                       varSliceSize (Output.script txOut)))
               (outs t) s0 = s0 + sum_list (map txOut_size (outs t))"
    by (rule fold_add) (simp add: txOut_size_def)
  have 3: "\<And>v s0. fold (\<lambda>wit sz. sz + varSliceSize wit) v s0 = s0 + sum_list (map varSliceSize v)"
    by (rule fold_add) simp
  have 4: "\<And>s0. fold (\<lambda>txIn sz.
                  (let sz = sz + varSliceSize (issuanceRangeProof txIn);
                       sz = sz + varSliceSize (inflationRangeProof txIn);
                       sz = sz + encodingLength (length (witness txIn));
                       sz = fold (\<lambda>wit sz. sz + varSliceSize wit) (witness txIn) sz;
                       sz = sz + encodingLength (length (peginWitness txIn))
                   in fold (\<lambda>wit sz. sz + varSliceSize wit) (peginWitness txIn) sz))
                  (ins t) s0 = s0 + sum_list (map (\<lambda>x. length (inFields_bytes x)) (ins t))"
    by (rule fold_add) (simp add: Let_def 3 inFields_bytes_def length_varslice length_vector_bytes)
  have 5: "\<And>s0. fold (\<lambda>txOut sz.
                  (let sz = sz + varSliceSize (surjectionProof txOut)
                   in sz + varSliceSize (rangeProof txOut)))
                 (outs t) s0 = s0 + sum_list (map (\<lambda>x. length (outFields_bytes x)) (outs t))"
    by (rule fold_add) (simp add: Let_def outFields_bytes_def length_varslice)
  show ?thesis
    unfolding byteLength_priv_def Let_def 1 [unfolded Let_def] 2 4 [unfolded Let_def] 5 [unfolded Let_def]
    by simp
qed

lemma length_txIn_bytes: "sized_in x \<Longrightarrow> length (txIn_bytes x) = txIn_size x"
  by (auto simp: sized_in_def txIn_bytes_def txIn_size_def length_le_bytes length_varslice
      issuance_bytes_def split: option.splits)

lemma length_txOut_bytes: "length (txOut_bytes x) = txOut_size x"
  by (simp add: txOut_bytes_def txOut_size_def length_varslice)

lemma sum_list_cong: "(\<And>x. x \<in> set xs \<Longrightarrow> f x = g x) \<Longrightarrow> sum_list (map f xs) = sum_list (map g xs)"
  by (induction xs) simp_all

lemma length_tx_bytes:
  assumes "list_all sized_in (ins t)"
  shows "length (tx_bytes t a fz None) = byteLength_priv t a None"
proof -
  have "sum_list (map (\<lambda>x. length (txIn_bytes x)) (ins t)) = sum_list (map txIn_size (ins t))"
    using assms by (intro sum_list_cong length_txIn_bytes) (simp add: list_all_iff)
  then show ?thesis
    by (simp add: byteLength_priv_sum tx_bytes_def Let_def truthy_def ins_bytes_def outs_bytes_def
        witness_suffix_def length_le_bytes length_varint length_concat_map length_txOut_bytes)
qed

section \<open>Evaluation of the cursor encodings\<close>

lemma le_bytes_1: "le_bytes 1 n = [word_of_nat (n mod 256)]"
  by simp

lemma le_bytes_4:
  "le_bytes 4 n =
     [word_of_nat (n mod 256), word_of_nat (n div 256 mod 256), word_of_nat (n div 256 div 256 mod 256),
      word_of_nat (n div 256 div 256 div 256 mod 256)]"
proof -
  have "(4::nat) = Suc (Suc (Suc (Suc 0)))" by simp
  show ?thesis
    unfolding \<open>(4::nat) = Suc (Suc (Suc (Suc 0)))\<close> le_bytes.simps ..
qed

lemma varint_small: "n < 253 \<Longrightarrow> varint n = [word_of_nat n]"
  by (simp add: varint_def le_bytes_1)

lemma varslice_Nil: "varslice [] = [0]"
  by (simp add: varslice_def varint_small)

section \<open>Reading back what was written\<close>

lemma at_advance: "at r (bs @ rest) \<Longrightarrow> at (advance (length bs) r) rest"
proof -
  assume a: "at r (bs @ rest)"
  let ?o = "BufferReader.offset r" and ?B = "BufferReader.buffer r"
  from a have d: "drop ?o ?B = bs @ rest" and le: "?o \<le> length ?B"
    by (simp_all add: at_def)
  from d have "length ?B - ?o = length bs + length rest"
    by (metis length_append length_drop)
  with le have 1: "?o + length bs \<le> length ?B"
    by simp
  have "drop (?o + length bs) ?B = drop (length bs) (drop ?o ?B)"
    by (simp add: add.commute)
  with d have 2: "drop (?o + length bs) ?B = rest"
    by simp
  from 1 2 show ?thesis
    by (simp add: at_def advance_def)
qed

lemma advance_advance: "advance m (advance n r) = advance (n + m) r"
  by (simp add: advance_def add.assoc)

lemma advance_0: "advance 0 r = r"
  by (simp add: advance_def)

lemma reads_readSlice: "length bs = n \<Longrightarrow> reads (readSlice n) bs bs"
proof (unfold reads_def, intro allI impI)
  fix r rest
  assume n: "length bs = n" and a: "at r (bs @ rest)"
  let ?o = "BufferReader.offset r" and ?B = "BufferReader.buffer r"
  from a have d: "drop ?o ?B = bs @ rest" and le: "?o \<le> length ?B"
    by (simp_all add: at_def)
  from d have "length ?B - ?o = length bs + length rest"
    by (metis length_append length_drop)
  with le n have 1: "?o + n \<le> length ?B"
    by simp
  from d n have 2: "take n (drop ?o ?B) = bs"
    by simp
  from 1 2 n show "readSlice n r = Inr (bs, advance (length bs) r)"
    by (simp add: readSlice_def advance_def)
qed

lemma readsD: "reads m bs v \<Longrightarrow> at r (bs @ rest) \<Longrightarrow> m r = Inr (v, advance (length bs) r)"
  by (auto simp: reads_def)

lemma reads_rreturn: "reads (rreturn v) [] v"
  by (simp add: reads_def rreturn_def advance_0)

lemma reads_rbind:
  assumes "reads m a v" and "reads (f v) b u"
  shows "reads (rbind m f) (a @ b) u"
proof (unfold reads_def, intro allI impI)
  fix r rest
  assume a: "at r ((a @ b) @ rest)"
  then have 1: "m r = Inr (v, advance (length a) r)"
    using readsD [OF assms(1), of r "b @ rest"] by simp
  from a have "at (advance (length a) r) (b @ rest)"
    using at_advance [of r a "b @ rest"] by simp
  then have 2: "f v (advance (length a) r) = Inr (u, advance (length b) (advance (length a) r))"
    by (rule readsD [OF assms(2)])
  from 1 2 show "rbind m f r = Inr (u, advance (length (a @ b)) r)"
    by (simp add: rbind_def advance_advance)
qed

lemma reads_cong: "reads m a v \<Longrightarrow> a = b \<Longrightarrow> reads m b v"
  by simp

lemma reads_rrepeat:
  assumes "\<And>x. x \<in> set xs \<Longrightarrow> reads m (enc x) x"
  shows "reads (rrepeat (length xs) m) (concat (map enc xs)) xs"
  using assms
proof (induction xs)
  case Nil
  show ?case by (simp add: reads_def advance_0)
next
  case (Cons x xs)
  have x: "reads m (enc x) x" and xs: "reads (rrepeat (length xs) m) (concat (map enc xs)) xs"
    using Cons by simp_all
  show ?case
  proof (unfold reads_def, intro allI impI)
    fix r rest
    assume a: "at r (concat (map enc (x # xs)) @ rest)"
    then have a': "at r (enc x @ (concat (map enc xs) @ rest))"
      by simp
    then have 1: "m r = Inr (x, advance (length (enc x)) r)"
      by (rule readsD [OF x])
    from a' have "at (advance (length (enc x)) r) (concat (map enc xs) @ rest)"
      by (rule at_advance)
    then have 2: "rrepeat (length xs) m (advance (length (enc x)) r)
                    = Inr (xs, advance (length (concat (map enc xs))) (advance (length (enc x)) r))"
      by (rule readsD [OF xs])
    from 1 2 show "rrepeat (length (x # xs)) m r = Inr (x # xs, advance (length (concat (map enc (x # xs)))) r)"
      by (simp add: advance_advance)
  qed
qed

lemma reads_rmap:
  assumes "\<And>x. x \<in> set xs \<Longrightarrow> reads (f x) (enc x) (g x)"
  shows "reads (rmap f xs) (concat (map enc xs)) (map g xs)"
  using assms
proof (induction xs)
  case Nil
  show ?case by (simp add: reads_def advance_0)
next
  case (Cons x xs)
  have x: "reads (f x) (enc x) (g x)" and xs: "reads (rmap f xs) (concat (map enc xs)) (map g xs)"
    using Cons by simp_all
  show ?case
  proof (unfold reads_def, intro allI impI)
    fix r rest
    assume a: "at r (concat (map enc (x # xs)) @ rest)"
    then have a': "at r (enc x @ (concat (map enc xs) @ rest))"
      by simp
    then have 1: "f x r = Inr (g x, advance (length (enc x)) r)"
      by (rule readsD [OF x])
    from a' have "at (advance (length (enc x)) r) (concat (map enc xs) @ rest)"
      by (rule at_advance)
    then have 2: "rmap f xs (advance (length (enc x)) r)
                    = Inr (map g xs, advance (length (concat (map enc xs))) (advance (length (enc x)) r))"
      by (rule readsD [OF xs])
    from 1 2 show "rmap f (x # xs) r = Inr (map g (x # xs), advance (length (concat (map enc (x # xs)))) r)"
      by (simp add: advance_advance)
  qed
qed

subsection \<open>Integers\<close>

lemma le_nat_le_bytes: "le_nat (le_bytes k n) = n mod 256 ^ k"
proof (induction k arbitrary: n)
  case 0
  show ?case by simp
next
  case (Suc k)
  have "unat (word_of_nat (n mod 256) :: byte) = n mod 256"
    by (simp add: unat_of_nat)
  then have "le_nat (le_bytes (Suc k) n) = n mod 256 + 256 * (n div 256 mod 256 ^ k)"
    by (simp add: Suc.IH)
  also have "\<dots> = n mod (256 * 256 ^ k)"
    by (simp add: mod_mult2_eq)
  finally show ?case by simp
qed

lemma le_nat_le_bytes_id: "n < 256 ^ k \<Longrightarrow> le_nat (le_bytes k n) = n"
  by (simp add: le_nat_le_bytes)

lemma reads_le: "n < 256 ^ k \<Longrightarrow> reads (rbind (readSlice k) (\<lambda>bs. rreturn (le_nat bs))) (le_bytes k n) n"
proof -
  assume n: "n < 256 ^ k"
  have "reads (rbind (readSlice k) (\<lambda>bs. rreturn (le_nat bs))) (le_bytes k n @ []) (le_nat (le_bytes k n))"
    by (rule reads_rbind reads_readSlice reads_rreturn length_le_bytes)+
  with n show ?thesis by (simp add: le_nat_le_bytes_id)
qed

lemma reads_readUInt32: "reads readUInt32 (le_bytes 4 (unat v)) v"
proof -
  have "unat v < 256 ^ 4"
    using unsigned_less [of v, where 'a = nat] by simp
  then have "le_nat (le_bytes 4 (unat v)) = unat v"
    by (rule le_nat_le_bytes_id)
  moreover have "reads (rbind (readSlice 4) (\<lambda>bs. rreturn (word_of_nat (le_nat bs) :: u32)))
          (le_bytes 4 (unat v) @ []) (word_of_nat (le_nat (le_bytes 4 (unat v))))"
    by (rule reads_rbind reads_readSlice reads_rreturn length_le_bytes)+
  ultimately show ?thesis by (simp add: readUInt32_def)
qed

lemma reads_readInt32: "reads readInt32 (le_bytes 4 (unat v)) v"
  using reads_readUInt32 [of v] by (simp add: readUInt32_def readInt32_def)

lemma reads_readUInt8: "reads readUInt8 [b] b"
proof -
  have "reads (rbind (readSlice 1) (\<lambda>bs. rreturn (word_of_nat (le_nat bs) :: byte)))
          ([b] @ []) (word_of_nat (le_nat [b]))"
    by (rule reads_rbind reads_readSlice reads_rreturn | simp)+
  then show ?thesis by (simp add: readUInt8_def)
qed

subsection \<open>Varints, slices and vectors\<close>

lemma reads_rreturn_eq: "v = u \<Longrightarrow> reads (rreturn v) [] u"
  by (simp add: reads_rreturn)

lemma reads_readVarInt:
  assumes "fits n"
  shows "reads readVarInt (varint n) n"
proof -
  consider (a) "n < 0xFD" | (b) "0xFD \<le> n" "n \<le> 0xFFFF" | (c) "0xFFFF < n" "n \<le> 0xFFFFFFFF"
    | (d) "0xFFFFFFFF < n"
    by linarith
  then show ?thesis
  proof cases
    case a
    let ?b = "word_of_nat n :: byte"
    have u: "unat ?b = n"
      using a by (simp add: unat_of_nat)
    have lt: "?b < 0xFD"
      using a u by (simp add: word_less_nat_alt)
    have "reads readVarInt ([?b] @ []) n"
      unfolding readVarInt_def
      by (rule reads_rbind [OF reads_readUInt8]) (simp add: lt u reads_rreturn_eq)
    then show ?thesis
      using a by (simp add: varint_small)
  next
    case b
    have "reads readVarInt ([0xFD] @ le_bytes 2 n) n"
      unfolding readVarInt_def
      using b by (intro reads_rbind [OF reads_readUInt8]) (simp add: reads_le)
    then show ?thesis
      using b by (simp add: varint_def)
  next
    case c
    have "reads readVarInt ([0xFE] @ le_bytes 4 n) n"
      unfolding readVarInt_def
      using c by (intro reads_rbind [OF reads_readUInt8]) (simp add: reads_le)
    then show ?thesis
      using c by (simp add: varint_def)
  next
    case d
    have "n < 256 ^ 8"
      using assms by (simp add: fits_def)
    then have "reads readVarInt ([0xFF] @ le_bytes 8 n) n"
      unfolding readVarInt_def
      by (intro reads_rbind [OF reads_readUInt8]) (simp add: reads_le)
    then show ?thesis
      using d by (simp add: varint_def)
  qed
qed

lemma reads_readVarSlice: "wf_slice bs \<Longrightarrow> reads readVarSlice (varslice bs) bs"
  unfolding readVarSlice_def varslice_def wf_slice_def
  by (rule reads_rbind [OF reads_readVarInt]) (simp_all add: reads_readSlice)

lemma reads_readVector:
  assumes "wf_vector v"
  shows "reads readVector (vector_bytes v) v"
proof -
  have "reads (rrepeat (length v) readVarSlice) (concat (map varslice v)) v"
    using assms by (intro reads_rrepeat reads_readVarSlice) (simp add: wf_vector_def list_all_iff)
  moreover have "fits (length v)"
    using assms by (simp add: wf_vector_def)
  ultimately show ?thesis
    unfolding readVector_def vector_bytes_def
    by (intro reads_rbind [OF reads_readVarInt])
qed

subsection \<open>Confidential fields\<close>

lemma reads_readSlice_Cons:
  assumes "length bs = n"
  shows "reads (rbind (readSlice n) (\<lambda>bs. rreturn (b # bs))) bs (b # bs)"
  using reads_rbind [OF reads_readSlice [OF assms] reads_rreturn, of "\<lambda>bs. b # bs"] by simp

lemma reads_readConfidentialAsset:
  assumes "length a = 33"
  shows "reads readConfidentialAsset a a"
proof -
  obtain b bs where a: "a = b # bs" and bs: "length bs = 32"
    using assms by (cases a) simp_all
  have "reads readConfidentialAsset ([b] @ bs @ []) (b # bs)"
    unfolding readConfidentialAsset_def
    by (rule reads_rbind [OF reads_readUInt8], rule reads_rbind [OF reads_readSlice [OF bs]],
        rule reads_rreturn)
  then show ?thesis
    using a by simp
qed

lemma reads_readConfidentialValue:
  assumes "wf_value v"
  shows "reads readConfidentialValue v v"
proof -
  consider (absent) "v = [0]" | (explicit) "length v = 9" "hd v = 1"
    | (commitment) "length v = 33" "hd v = 8 \<or> hd v = 9"
    using assms by (auto simp: wf_value_def)
  then show ?thesis
  proof cases
    case absent
    have "reads readConfidentialValue ([0] @ []) [0]"
      unfolding readConfidentialValue_def
      by (rule reads_rbind [OF reads_readUInt8]) (simp add: reads_rreturn)
    then show ?thesis
      using absent by simp
  next
    case explicit
    then obtain bs where v: "v = 1 # bs" and bs: "length bs = 8"
      by (cases v) simp_all
    have "reads readConfidentialValue ([1] @ bs @ []) (1 # bs)"
      unfolding readConfidentialValue_def
      by (rule reads_rbind [OF reads_readUInt8]) (simp add: reads_readSlice_Cons [OF bs])
    then show ?thesis
      using v by simp
  next
    case commitment
    then obtain b bs where v: "v = b # bs" and bs: "length bs = 32" and b: "b = 8 \<or> b = 9"
      by (cases v) simp_all
    have "reads readConfidentialValue ([b] @ bs @ []) (b # bs)"
      unfolding readConfidentialValue_def
      using b
      by (intro reads_rbind [OF reads_readUInt8]) (auto simp: reads_readSlice_Cons [OF bs])
    then show ?thesis
      using v by simp
  qed
qed

lemma reads_readConfidentialNonce:
  assumes "wf_nonce v"
  shows "reads readConfidentialNonce v v"
proof -
  consider (absent) "v = [0]" | (commitment) "length v = 33" "hd v = 2 \<or> hd v = 3"
    using assms by (auto simp: wf_nonce_def)
  then show ?thesis
  proof cases
    case absent
    have "reads readConfidentialNonce ([0] @ []) [0]"
      unfolding readConfidentialNonce_def
      by (rule reads_rbind [OF reads_readUInt8]) (simp add: reads_rreturn)
    then show ?thesis
      using absent by simp
  next
    case commitment
    then obtain b bs where v: "v = b # bs" and bs: "length bs = 32" and b: "b = 2 \<or> b = 3"
      by (cases v) simp_all
    have "reads readConfidentialNonce ([b] @ bs @ []) (b # bs)"
      unfolding readConfidentialNonce_def
      using b
      by (intro reads_rbind [OF reads_readUInt8]) (auto simp: reads_readSlice_Cons [OF bs])
    then show ?thesis
      using v by simp
  qed
qed

lemma reads_readIssuance:
  assumes "wf_issuance (Some i)"
  shows "reads readIssuance (issuance_bytes (Some i)) i"
proof -
  from assms have n: "length (assetBlindingNonce i) = 32" and e: "length (assetEntropy i) = 32"
    and a: "wf_value (assetAmount i)" and t: "wf_value (tokenAmount i)"
    by (simp_all add: wf_issuance_def)
  have "reads readIssuance
          (assetBlindingNonce i @ assetEntropy i @ assetAmount i @ tokenAmount i @ [])
          \<lparr>assetBlindingNonce = assetBlindingNonce i, assetEntropy = assetEntropy i,
           assetAmount = assetAmount i, tokenAmount = tokenAmount i\<rparr>"
    unfolding readIssuance_def
    by (rule reads_rbind [OF reads_readSlice [OF n]], rule reads_rbind [OF reads_readSlice [OF e]],
        rule reads_rbind [OF reads_readConfidentialValue [OF a]],
        rule reads_rbind [OF reads_readConfidentialValue [OF t]], rule reads_rreturn)
  moreover have "\<lparr>assetBlindingNonce = assetBlindingNonce i, assetEntropy = assetEntropy i,
                  assetAmount = assetAmount i, tokenAmount = tokenAmount i\<rparr> = i"
    by simp
  ultimately show ?thesis
    by (simp add: issuance_bytes_def)
qed

lemma reads_readConfidentialInFields:
  assumes "wf_slice (issuanceRangeProof x)" and "wf_slice (inflationRangeProof x)"
    and "wf_vector (witness x)" and "wf_vector (peginWitness x)"
  shows "reads readConfidentialInFields (inFields_bytes x)
           (witness x, peginWitness x, issuanceRangeProof x, inflationRangeProof x)"
proof -
  have "reads readConfidentialInFields
          (varslice (issuanceRangeProof x) @ varslice (inflationRangeProof x) @
           vector_bytes (witness x) @ vector_bytes (peginWitness x) @ [])
          (witness x, peginWitness x, issuanceRangeProof x, inflationRangeProof x)"
    unfolding readConfidentialInFields_def
    by (rule reads_rbind [OF reads_readVarSlice [OF assms(1)]],
        rule reads_rbind [OF reads_readVarSlice [OF assms(2)]],
        rule reads_rbind [OF reads_readVector [OF assms(3)]],
        rule reads_rbind [OF reads_readVector [OF assms(4)]], rule reads_rreturn)
  then show ?thesis
    by (simp add: inFields_bytes_def)
qed

lemma reads_readConfidentialOutFields:
  assumes "wf_slice (surjectionProof x)" and "wf_slice (rangeProof x)"
  shows "reads readConfidentialOutFields (outFields_bytes x) (rangeProof x, surjectionProof x)"
proof -
  have "reads readConfidentialOutFields
          (varslice (surjectionProof x) @ varslice (rangeProof x) @ [])
          (rangeProof x, surjectionProof x)"
    unfolding readConfidentialOutFields_def
    by (rule reads_rbind [OF reads_readVarSlice [OF assms(1)]],
        rule reads_rbind [OF reads_readVarSlice [OF assms(2)]], rule reads_rreturn)
  then show ?thesis
    by (simp add: outFields_bytes_def)
qed

subsection \<open>The flag bits of the outpoint index\<close>

lemma logical_and_mask:
  fixes i :: u32
  assumes "i < 2 ^ 30"
  shows "i AND 0x3FFFFFFF = i" and "i AND 0x80000000 = 0" and "i AND 0x40000000 = 0"
proof -
  have "i AND mask 30 = i"
    using assms by (rule less_mask_eq)
  then show m: "i AND 0x3FFFFFFF = i"
    by (simp add: mask_eq_exp_minus_1)
  have "i AND 0x80000000 = (i AND 0x3FFFFFFF) AND 0x80000000"
    by (simp only: m)
  also have "\<dots> = i AND (0x3FFFFFFF AND 0x80000000)"
    by (simp only: and.assoc)
  finally show "i AND 0x80000000 = 0"
    by simp
  have "i AND 0x40000000 = (i AND 0x3FFFFFFF) AND 0x40000000"
    by (simp only: m)
  also have "\<dots> = i AND (0x3FFFFFFF AND 0x40000000)"
    by (simp only: and.assoc)
  finally show "i AND 0x40000000 = 0"
    by simp
qed

lemma flag_values:
  "OUTPOINT_ISSUANCE_FLAG = 0x80000000" "OUTPOINT_PEGIN_FLAG = 0x40000000"
  by (simp_all add: OUTPOINT_ISSUANCE_FLAG_def OUTPOINT_PEGIN_FLAG_def)

lemma wire_index_logical:
  assumes "index x < 2 ^ 30"
  shows "wire_index x AND OUTPOINT_INDEX_MASK = index x"
    and "(wire_index x AND OUTPOINT_ISSUANCE_FLAG \<noteq> 0) = (issuance x \<noteq> None)"
    and "(wire_index x AND OUTPOINT_PEGIN_FLAG \<noteq> 0) = isPegin x"
  using logical_and_mask [OF assms]
  by (simp_all add: wire_index_def flag_values OUTPOINT_INDEX_MASK_def Let_def
      bit.conj_disj_distrib2)

lemma wire_index_not_sentinel:
  assumes "logical_index x"
  shows "wire_index x \<noteq> MINUS_1"
proof
  assume s: "wire_index x = MINUS_1"
  from assms have lt: "index x < 2 ^ 30"
    by (simp add: logical_index_def)
  from s have "wire_index x AND OUTPOINT_INDEX_MASK = 0x3FFFFFFF"
    and "wire_index x AND OUTPOINT_ISSUANCE_FLAG \<noteq> 0"
    and "wire_index x AND OUTPOINT_PEGIN_FLAG \<noteq> 0"
    by (simp_all add: MINUS_1_def OUTPOINT_INDEX_MASK_def flag_values)
  then have "index x = 0x3FFFFFFF" and "issuance x \<noteq> None" and "isPegin x"
    using wire_index_logical [OF lt] by simp_all
  with assms show False
    by (simp add: logical_index_def)
qed

lemma wire_index_sentinel: "index x = MINUS_1 \<Longrightarrow> wire_index x = MINUS_1"
  by (simp add: wire_index_def MINUS_1_def Let_def flag_values)

subsection \<open>One input\<close>

lemma reads_txIn_logical:
  assumes h: "length (hash x) = 32" and s: "wf_slice (Input.script x)"
    and l: "logical_index x" and i: "wf_issuance (issuance x)"
  shows "reads fromBuffer_txIn (txIn_bytes x) (bare_txIn x)"
proof -
  let ?w = "wire_index x"
  from l have lt: "index x < 2 ^ 30"
    by (simp add: logical_index_def)
  note w = wire_index_logical [OF lt] wire_index_not_sentinel [OF l]
  have iss: "reads (if ?w AND OUTPOINT_ISSUANCE_FLAG \<noteq> 0
                    then rbind readIssuance (\<lambda>i. rreturn (Some i)) else rreturn None)
               (issuance_bytes (issuance x)) (issuance x)"
  proof (cases "issuance x")
    case None
    then show ?thesis
      using w by (simp add: issuance_bytes_def reads_rreturn)
  next
    case (Some a)
    from i Some have wa: "wf_issuance (Some a)"
      by simp
    have "reads (rbind readIssuance (\<lambda>i. rreturn (Some i))) (issuance_bytes (Some a) @ []) (Some a)"
      by (rule reads_rbind [OF reads_readIssuance [OF wa]], rule reads_rreturn)
    then show ?thesis
      using w Some by simp
  qed
  have dec: "reads (if ?w \<noteq> MINUS_1
                    then rbind (if ?w AND OUTPOINT_ISSUANCE_FLAG \<noteq> 0
                                then rbind readIssuance (\<lambda>i. rreturn (Some i))
                                else rreturn None) (\<lambda>inIssuance.
                         rreturn (inIssuance, ?w AND OUTPOINT_PEGIN_FLAG \<noteq> 0, ?w AND OUTPOINT_INDEX_MASK))
                    else rreturn (None, False, ?w))
               (issuance_bytes (issuance x) @ []) (issuance x, isPegin x, index x)"
  proof -
    have "reads (rbind (if ?w AND OUTPOINT_ISSUANCE_FLAG \<noteq> 0
                        then rbind readIssuance (\<lambda>i. rreturn (Some i))
                        else rreturn None) (\<lambda>inIssuance.
                 rreturn (inIssuance, ?w AND OUTPOINT_PEGIN_FLAG \<noteq> 0, ?w AND OUTPOINT_INDEX_MASK)))
            (issuance_bytes (issuance x) @ [])
            (issuance x, ?w AND OUTPOINT_PEGIN_FLAG \<noteq> 0, ?w AND OUTPOINT_INDEX_MASK)"
      by (rule reads_rbind [OF iss], rule reads_rreturn)
    then show ?thesis
      using w by simp
  qed
  have rec: "\<lparr>hash = hash x, index = index x, script = Input.script x, sequence = sequence x,
              witness = EMPTY_WITNESS, isPegin = isPegin x, issuance = issuance x,
              peginWitness = EMPTY_WITNESS, issuanceRangeProof = EMPTY_BUFFER,
              inflationRangeProof = EMPTY_BUFFER\<rparr> = bare_txIn x"
    by (cases x) (simp add: bare_txIn_def)
  have "reads fromBuffer_txIn
          (hash x @ le_bytes 4 (unat ?w) @ varslice (Input.script x) @ le_bytes 4 (unat (sequence x)) @
           (issuance_bytes (issuance x) @ []) @ [])
          (bare_txIn x)"
    unfolding fromBuffer_txIn_def
    by (rule reads_rbind [OF reads_readSlice [OF h]], rule reads_rbind [OF reads_readUInt32],
        rule reads_rbind [OF reads_readVarSlice [OF s]], rule reads_rbind [OF reads_readUInt32],
        rule reads_rbind [OF dec], simp add: rec reads_rreturn)
  then show ?thesis
    by (simp add: txIn_bytes_def)
qed

lemma reads_txIn_sentinel:
  assumes h: "length (hash x) = 32" and s: "wf_slice (Input.script x)"
    and w: "wire_index x = MINUS_1"
  shows "reads fromBuffer_txIn
           (hash x @ le_bytes 4 (unat (wire_index x)) @ varslice (Input.script x) @
            le_bytes 4 (unat (sequence x)))
           ((bare_txIn x)\<lparr>index := MINUS_1, isPegin := False, issuance := None\<rparr>)"
proof -
  have dec: "reads (if MINUS_1 \<noteq> MINUS_1
                    then rbind (if MINUS_1 AND OUTPOINT_ISSUANCE_FLAG \<noteq> 0
                                then rbind readIssuance (\<lambda>i. rreturn (Some i))
                                else rreturn None) (\<lambda>inIssuance.
                         rreturn (inIssuance, MINUS_1 AND OUTPOINT_PEGIN_FLAG \<noteq> 0,
                                  MINUS_1 AND OUTPOINT_INDEX_MASK))
                    else rreturn (None, False, MINUS_1))
               [] (None, False, MINUS_1)"
    by (simp add: reads_rreturn)
  have rec: "\<lparr>hash = hash x, index = MINUS_1, script = Input.script x, sequence = sequence x,
              witness = EMPTY_WITNESS, isPegin = False, issuance = None,
              peginWitness = EMPTY_WITNESS, issuanceRangeProof = EMPTY_BUFFER,
              inflationRangeProof = EMPTY_BUFFER\<rparr>
             = (bare_txIn x)\<lparr>index := MINUS_1, isPegin := False, issuance := None\<rparr>"
    by (cases x) (simp add: bare_txIn_def)
  have "reads fromBuffer_txIn
          (hash x @ le_bytes 4 (unat MINUS_1) @ varslice (Input.script x) @ le_bytes 4 (unat (sequence x)) @
           [] @ [])
          ((bare_txIn x)\<lparr>index := MINUS_1, isPegin := False, issuance := None\<rparr>)"
    unfolding fromBuffer_txIn_def
    by (rule reads_rbind [OF reads_readSlice [OF h]], rule reads_rbind [OF reads_readUInt32],
        rule reads_rbind [OF reads_readVarSlice [OF s]], rule reads_rbind [OF reads_readUInt32],
        rule reads_rbind [OF dec], simp add: rec reads_rreturn)
  then show ?thesis
    by (simp add: w)
qed

lemma reads_txIn:
  assumes "wf_txIn x"
  shows "reads fromBuffer_txIn (txIn_bytes x) (bare_txIn x)"
proof (cases "index x = MINUS_1")
  case True
  with assms have n: "issuance x = None" "\<not> isPegin x"
    by (simp_all add: wf_txIn_def wf_index_def)
  have w: "wire_index x = MINUS_1"
    using True by (rule wire_index_sentinel)
  have "(bare_txIn x)\<lparr>index := MINUS_1, isPegin := False, issuance := None\<rparr> = bare_txIn x"
    using True n by (cases x) (simp add: bare_txIn_def)
  moreover have "reads fromBuffer_txIn
           (hash x @ le_bytes 4 (unat (wire_index x)) @ varslice (Input.script x) @
            le_bytes 4 (unat (sequence x)))
           ((bare_txIn x)\<lparr>index := MINUS_1, isPegin := False, issuance := None\<rparr>)"
    using assms by (intro reads_txIn_sentinel w) (simp_all add: wf_txIn_def)
  ultimately show ?thesis
    using n by (simp add: txIn_bytes_def issuance_bytes_def)
next
  case False
  with assms show ?thesis
    by (intro reads_txIn_logical) (simp_all add: wf_txIn_def wf_index_def)
qed

text \<open>Where the bytes of an input are after \<open>toBuffer_txIn\<close> has returned.\<close>

lemma toBuffer_txIn_written:
  assumes "toBuffer_txIn x \<lparr>BufferWriter.buffer = buf, BufferWriter.offset = off\<rparr> = Inr w"
    and "length (hash x) = 32"
  shows "BufferWriter.offset w = off + length (txIn_bytes x)"
    and "at \<lparr>BufferReader.buffer = BufferWriter.buffer w, BufferReader.offset = off\<rparr>
           (txIn_bytes x @ drop (off + length (txIn_bytes x)) buf)"
proof -
  let ?w0 = "\<lparr>BufferWriter.buffer = buf, BufferWriter.offset = off\<rparr>"
  have inv: "winv ?w0"
  proof (rule ccontr)
    assume "\<not> winv ?w0"
    then have "toBuffer_txIn x ?w0 = Inl Truncated"
      using assms(2) by (simp add: toBuffer_txIn_def Let_def writeSlice_def winv_def)
    with assms(1) show False by simp
  qed
  then have "writeSlice (txIn_bytes x) ?w0 = Inr w"
    using is_put_txIn [of x] assms(1) by (simp add: is_put_def)
  then have le: "off + length (txIn_bytes x) \<le> length buf"
    and b: "BufferWriter.buffer w = take off buf @ txIn_bytes x @ drop (off + length (txIn_bytes x)) buf"
    and o: "BufferWriter.offset w = off + length (txIn_bytes x)"
    by (auto simp: writeSlice_def split: if_splits)
  show "BufferWriter.offset w = off + length (txIn_bytes x)"
    by (rule o)
  show "at \<lparr>BufferReader.buffer = BufferWriter.buffer w, BufferReader.offset = off\<rparr>
           (txIn_bytes x @ drop (off + length (txIn_bytes x)) buf)"
    using le by (simp add: at_def b)
qed

section \<open>\<^verbatim>\<open>addInput\<close>: the default sequence\<close>

text \<open>
  Claim C10. Calling \<^verbatim>\<open>addInput\<close> with an explicit sequence argument equal to 0
  stores \<^verbatim>\<open>DEFAULT_SEQUENCE\<close> (\<open>0xFFFFFFFF\<close>) as the sequence of the input it pushes,
  not 0, because the default is applied by \<^verbatim>\<open>sequence || DEFAULT_SEQUENCE\<close>; for every
  non-zero sequence the supplied value is stored. The input is pushed at the end of
  \<^verbatim>\<open>ins\<close> and its position is returned.
\<close>

theorem addInput_sequence:
  assumes "addInput t h i (Some s) scriptSig iss = Inr (n, t')"
  shows "n = length (ins t) \<and> length (ins t') = Suc n \<and> take n (ins t') = ins t \<and>
         sequence (ins t' ! n) = (if s = 0 then 0xFFFFFFFF else s)"
  using assms
  by (auto simp: addInput_def DEFAULT_SEQUENCE_def split: sum.splits if_splits prod.splits)

theorem addInput_sequence_witness:
  "(\<exists>n t'. addInput empty_tx (replicate 32 0) 7 (Some 0) None None = Inr (n, t') \<and>
            sequence (ins t' ! n) = 0xFFFFFFFF) \<and>
   (\<exists>n t'. addInput empty_tx (replicate 32 0) 7 (Some 5) None None = Inr (n, t') \<and>
            sequence (ins t' ! n) = 5)"
proof -
  have ok: "\<And>s. \<exists>n t'. addInput empty_tx (replicate 32 0) 7 (Some s) None None = Inr (n, t')"
    by (simp add: addInput_def typeforce_def Hash256bit_def MINUS_1_def OUTPOINT_ISSUANCE_FLAG_def)
  obtain n0 t0 where a0: "addInput empty_tx (replicate 32 0) 7 (Some 0) None None = Inr (n0, t0)"
    using ok by blast
  obtain n5 t5 where a5: "addInput empty_tx (replicate 32 0) 7 (Some 5) None None = Inr (n5, t5)"
    using ok by blast
  from addInput_sequence [OF a0] addInput_sequence [OF a5] a0 a5 show ?thesis
    by auto
qed

section \<open>\<^verbatim>\<open>getHash\<close>: the wtxid of a coinbase\<close>

text \<open>
  Claim C7. For every coinbase transaction (exactly one input, whose previous
  transaction hash is 32 zero bytes), \<^verbatim>\<open>getHash(true)\<close> is 32 zero bytes, whatever the
  rest of the transaction, the hash function and the memory are.
\<close>

theorem getHash_coinbase_wtxid:
  assumes "length (ins t) = 1" and "hash (ins t ! 0) = replicate 32 0"
  shows "getHash hash256 junk t (Some True) = Inr (replicate 32 0)"
  using assms
  by (simp add: getHash_def truthy_def isCoinbase_def isCoinbaseHash_def typeforce_def
      Hash256bit_def list_all_iff)

theorem getHash_coinbase_wtxid_witness:
  "getHash (\<lambda>b. b) [] \<lparr>version = 2, locktime = 0, flag = 0, ins = [coinbase_in], outs = []\<rparr> (Some True)
     = Inr (replicate 32 0)"
  by (rule getHash_coinbase_wtxid) (simp_all add: coinbase_in_def)

subsection \<open>One output, and the confidential field groups\<close>

lemma reads_txOut:
  assumes "wf_txOut x"
  shows "reads fromBuffer_txOut (txOut_bytes x) (bare_txOut x)"
proof -
  from assms have a: "length (asset x) = 33" and v: "wf_value (Output.value x)"
    and n: "wf_nonce (nonce x)" and s: "wf_slice (Output.script x)"
    by (simp_all add: wf_txOut_def wf_asset_def)
  have rec: "\<lparr>Output.script = Output.script x, value = Output.value x, asset = asset x, nonce = nonce x,
              rangeProof = EMPTY_BUFFER, surjectionProof = EMPTY_BUFFER\<rparr> = bare_txOut x"
    by (cases x) (simp add: bare_txOut_def)
  have "reads fromBuffer_txOut
          (asset x @ Output.value x @ nonce x @ varslice (Output.script x) @ [])
          (bare_txOut x)"
    unfolding fromBuffer_txOut_def
    by (rule reads_rbind [OF reads_readConfidentialAsset [OF a]],
        rule reads_rbind [OF reads_readConfidentialValue [OF v]],
        rule reads_rbind [OF reads_readConfidentialNonce [OF n]],
        rule reads_rbind [OF reads_readVarSlice [OF s]], simp add: rec reads_rreturn)
  then show ?thesis
    by (simp add: txOut_bytes_def)
qed

lemma reads_inFields:
  assumes "wf_txIn x"
  shows "reads (fromBuffer_inFields (bare_txIn x)) (inFields_bytes x) x"
proof -
  have rec: "(bare_txIn x)\<lparr>witness := witness x, peginWitness := peginWitness x,
                issuanceRangeProof := issuanceRangeProof x,
                inflationRangeProof := inflationRangeProof x\<rparr> = x"
    by (cases x) (simp add: bare_txIn_def)
  have "reads readConfidentialInFields (inFields_bytes x)
          (witness x, peginWitness x, issuanceRangeProof x, inflationRangeProof x)"
    using assms by (intro reads_readConfidentialInFields) (simp_all add: wf_txIn_def)
  then have "reads (fromBuffer_inFields (bare_txIn x)) (inFields_bytes x @ []) x"
    unfolding fromBuffer_inFields_def
    by (rule reads_rbind) (simp add: rec reads_rreturn)
  then show ?thesis
    by simp
qed

lemma reads_outFields:
  assumes "wf_txOut x"
  shows "reads (fromBuffer_outFields (bare_txOut x)) (outFields_bytes x) x"
proof -
  have rec: "(bare_txOut x)\<lparr>rangeProof := rangeProof x, surjectionProof := surjectionProof x\<rparr> = x"
    by (cases x) (simp add: bare_txOut_def)
  have "reads readConfidentialOutFields (outFields_bytes x) (rangeProof x, surjectionProof x)"
    using assms by (intro reads_readConfidentialOutFields) (simp_all add: wf_txOut_def)
  then have "reads (fromBuffer_outFields (bare_txOut x)) (outFields_bytes x @ []) x"
    unfolding fromBuffer_outFields_def
    by (rule reads_rbind) (simp add: rec reads_rreturn)
  then show ?thesis
    by simp
qed

subsection \<open>The loops\<close>

lemma reads_rrepeat_map:
  assumes "\<And>x. x \<in> set xs \<Longrightarrow> reads m (enc x) (g x)"
  shows "reads (rrepeat (length xs) m) (concat (map enc xs)) (map g xs)"
  using assms
proof (induction xs)
  case Nil
  show ?case by (simp add: reads_def advance_0)
next
  case (Cons x xs)
  have x: "reads m (enc x) (g x)"
    and xs: "reads (rrepeat (length xs) m) (concat (map enc xs)) (map g xs)"
    using Cons by simp_all
  show ?case
  proof (unfold reads_def, intro allI impI)
    fix r rest
    assume "at r (concat (map enc (x # xs)) @ rest)"
    then have a: "at r (enc x @ (concat (map enc xs) @ rest))"
      by simp
    then have 1: "m r = Inr (g x, advance (length (enc x)) r)"
      by (rule readsD [OF x])
    from a have "at (advance (length (enc x)) r) (concat (map enc xs) @ rest)"
      by (rule at_advance)
    then have 2: "rrepeat (length xs) m (advance (length (enc x)) r)
                    = Inr (map g xs, advance (length (concat (map enc xs))) (advance (length (enc x)) r))"
      by (rule readsD [OF xs])
    from 1 2 show "rrepeat (length (x # xs)) m r
                     = Inr (map g (x # xs), advance (length (concat (map enc (x # xs)))) r)"
      by (simp add: advance_advance)
  qed
qed

lemma reads_rmap_map:
  assumes "\<And>x. x \<in> set xs \<Longrightarrow> reads (f (h x)) (enc x) (g x)"
  shows "reads (rmap f (map h xs)) (concat (map enc xs)) (map g xs)"
  using assms
proof (induction xs)
  case Nil
  show ?case by (simp add: reads_def advance_0)
next
  case (Cons x xs)
  have x: "reads (f (h x)) (enc x) (g x)"
    and xs: "reads (rmap f (map h xs)) (concat (map enc xs)) (map g xs)"
    using Cons by simp_all
  show ?case
  proof (unfold reads_def, intro allI impI)
    fix r rest
    assume "at r (concat (map enc (x # xs)) @ rest)"
    then have a: "at r (enc x @ (concat (map enc xs) @ rest))"
      by simp
    then have 1: "f (h x) r = Inr (g x, advance (length (enc x)) r)"
      by (rule readsD [OF x])
    from a have "at (advance (length (enc x)) r) (concat (map enc xs) @ rest)"
      by (rule at_advance)
    then have 2: "rmap f (map h xs) (advance (length (enc x)) r)
                    = Inr (map g xs, advance (length (concat (map enc xs))) (advance (length (enc x)) r))"
      by (rule readsD [OF xs])
    from 1 2 show "rmap f (map h (x # xs)) r
                     = Inr (map g (x # xs), advance (length (concat (map enc (x # xs)))) r)"
      by (simp add: advance_advance)
  qed
qed

lemma map_idem: "list_all (\<lambda>x. f x = x) xs \<Longrightarrow> map f xs = xs"
  by (induction xs) simp_all

subsection \<open>The whole transaction\<close>

lemma reads_fromBuffer_reads:
  assumes "wf_tx t"
  shows "reads fromBuffer_reads (tx_bytes t (Some True) (Some False) None) t"
proof -
  from assms have fi: "fits (length (ins t))" and fo: "fits (length (outs t))"
    and wi: "list_all wf_txIn (ins t)" and wo: "list_all wf_txOut (outs t)"
    by (simp_all add: wf_tx_def)
  define fl :: byte where "fl = (if hasWitnesses t then 1 else 0)"
  have flag: "flag t = fl"
    using assms by (simp add: wf_tx_def fl_def split: if_splits)
  define suffix where "suffix = (if hasWitnesses t then witness_suffix t else [])"
  have ins: "reads (rrepeat (length (ins t)) fromBuffer_txIn) (concat (map txIn_bytes (ins t)))
               (map bare_txIn (ins t))"
    using wi by (intro reads_rrepeat_map reads_txIn) (simp add: list_all_iff)
  have outs: "reads (rrepeat (length (outs t)) fromBuffer_txOut) (concat (map txOut_bytes (outs t)))
                (map bare_txOut (outs t))"
    using wo by (intro reads_rrepeat_map reads_txOut) (simp add: list_all_iff)
  have suf: "reads (if fl AND ADVANCED_TRANSACTION_FLAG \<noteq> 0
                    then rbind (rmap fromBuffer_inFields (map bare_txIn (ins t))) (\<lambda>ins.
                         rbind (rmap fromBuffer_outFields (map bare_txOut (outs t))) (\<lambda>outs.
                         rreturn (ins, outs)))
                    else rreturn (map bare_txIn (ins t), map bare_txOut (outs t)))
               suffix (ins t, outs t)"
  proof (cases "hasWitnesses t")
    case True
    have i: "reads (rmap fromBuffer_inFields (map bare_txIn (ins t)))
               (concat (map inFields_bytes (ins t))) (map (\<lambda>x. x) (ins t))"
      using wi by (intro reads_rmap_map reads_inFields) (simp add: list_all_iff)
    have o: "reads (rmap fromBuffer_outFields (map bare_txOut (outs t)))
               (concat (map outFields_bytes (outs t))) (map (\<lambda>x. x) (outs t))"
      using wo by (intro reads_rmap_map reads_outFields) (simp add: list_all_iff)
    have "reads (rbind (rmap fromBuffer_inFields (map bare_txIn (ins t))) (\<lambda>ins.
                 rbind (rmap fromBuffer_outFields (map bare_txOut (outs t))) (\<lambda>outs.
                 rreturn (ins, outs))))
            (concat (map inFields_bytes (ins t)) @ concat (map outFields_bytes (outs t)) @ [])
            (map (\<lambda>x. x) (ins t), map (\<lambda>x. x) (outs t))"
      by (rule reads_rbind [OF i], rule reads_rbind [OF o], rule reads_rreturn)
    then show ?thesis
      using True by (simp add: fl_def suffix_def witness_suffix_def ADVANCED_TRANSACTION_FLAG_def)
  next
    case False
    with assms have "map bare_txIn (ins t) = ins t" and "map bare_txOut (outs t) = outs t"
      by (simp_all add: wf_tx_def map_idem)
    then show ?thesis
      using False by (simp add: fl_def suffix_def ADVANCED_TRANSACTION_FLAG_def reads_rreturn)
  qed
  have rec: "\<lparr>version = version t, locktime = locktime t, flag = fl, ins = ins t, outs = outs t\<rparr> = t"
    using flag by (cases t) simp
  have "reads fromBuffer_reads
          (le_bytes 4 (unat (version t)) @ [fl] @ varint (length (ins t)) @
           concat (map txIn_bytes (ins t)) @ varint (length (outs t)) @
           concat (map txOut_bytes (outs t)) @ le_bytes 4 (unat (locktime t)) @ suffix @ [])
          t"
    unfolding fromBuffer_reads_def Let_def
    by (rule reads_rbind [OF reads_readInt32], rule reads_rbind [OF reads_readUInt8],
        rule reads_rbind [OF reads_readVarInt [OF fi]], rule reads_rbind [OF ins],
        rule reads_rbind [OF reads_readVarInt [OF fo]], rule reads_rbind [OF outs],
        rule reads_rbind [OF reads_readUInt32], rule reads_rbind [OF suf],
        simp add: rec reads_rreturn)
  moreover have "tx_bytes t (Some True) (Some False) None =
          le_bytes 4 (unat (version t)) @ [fl] @ varint (length (ins t)) @
           concat (map txIn_bytes (ins t)) @ varint (length (outs t)) @
           concat (map txOut_bytes (outs t)) @ le_bytes 4 (unat (locktime t)) @ suffix @ []"
    by (simp add: tx_bytes_def truthy_def fl_def suffix_def ins_bytes_def outs_bytes_def)
  ultimately show ?thesis
    by simp
qed

lemma wf_txIn_sized: "wf_txIn x \<Longrightarrow> sized_in x"
  by (auto simp: wf_txIn_def sized_in_def wf_issuance_def split: option.splits)

lemma toBuffer_wf:
  assumes "wf_tx t"
  shows "toBuffer junk None None t = Inr (tx_bytes t (Some True) (Some False) None)"
proof -
  have "list_all sized_in (ins t)"
    using assms by (auto simp: wf_tx_def list_all_iff intro: wf_txIn_sized)
  then have "length (tx_bytes t (Some True) (Some False) None) = byteLength_priv t (Some True) None"
    by (rule length_tx_bytes)
  then show ?thesis
    by (simp add: toBuffer_def toBuffer_priv_None length_allocUnsafe)
qed

lemma fromBuffer_wf:
  assumes "wf_tx t"
  shows "fromBuffer (tx_bytes t (Some True) (Some False) None) NO_STRICT = Inr t"
proof -
  let ?B = "tx_bytes t (Some True) (Some False) None"
  let ?r = "\<lparr>BufferReader.buffer = ?B, BufferReader.offset = 0\<rparr>"
  have "at ?r (?B @ [])"
    by (simp add: at_def)
  with reads_fromBuffer_reads [OF assms] have "fromBuffer_reads ?r = Inr (t, advance (length ?B) ?r)"
    by (rule readsD)
  then show ?thesis
    by (simp add: fromBuffer_def advance_def)
qed

section \<open>\<^verbatim>\<open>byteLength\<close> against the length of the serialization\<close>

text \<open>
  Claim C2 says that for both values of \<^verbatim>\<open>allow_witness\<close> the length of the
  serialization equals the public \<^verbatim>\<open>byteLength\<close>. On \<open>wit_tx\<close> the serialization
  without witnesses has 52 bytes, as \<^verbatim>\<open>__byteLength(false)\<close> says, while
  \<^verbatim>\<open>byteLength(false)\<close> answers 58, the size with witnesses: \<^verbatim>\<open>_ALLOW_WITNESS || true\<close> is
  always \<^verbatim>\<open>true\<close>.
\<close>

theorem byteLength_ignores_false:
  "toBuffer_priv junk None None (Some False) fz None wit_tx
     = Inr ([2, 0, 0, 0, 0, 1] @ replicate 32 0 @ [0, 0, 0, 0, 0, 255, 255, 255, 255, 0, 0, 0, 0, 0]) \<and>
   byteLength_priv wit_tx (Some False) None = 52 \<and>
   byteLength wit_tx (Some False) = 58"
proof -
  have s: "tx_bytes wit_tx (Some False) fz None
             = [2, 0, 0, 0, 0, 1] @ replicate 32 0 @ [0, 0, 0, 0, 0, 255, 255, 255, 255, 0, 0, 0, 0, 0]"
    by (simp add: tx_bytes_def truthy_def wit_tx_def wit_in_def ins_bytes_def outs_bytes_def
        txIn_bytes_def wire_index_def issuance_bytes_def varslice_Nil varint_small le_bytes_4)
  have n: "byteLength_priv wit_tx (Some False) None = 52"
    by (simp add: byteLength_priv_def truthy_def wit_tx_def wit_in_def encodingLength_def
        varSliceSize_def)
  have m: "byteLength wit_tx (Some False) = 58"
    by (simp add: byteLength_def byteLength_priv_def truthy_def hasWitnesses_def wit_tx_def wit_in_def
        encodingLength_def varSliceSize_def)
  show ?thesis
    by (simp add: toBuffer_priv_None s n m length_allocUnsafe)
qed

text \<open>For \<^verbatim>\<open>allow_witness = true\<close> the two agree whenever the serialization returns.\<close>

lemma byteLength_true:
  "toBuffer_priv junk None None (Some True) fz None t = Inr b \<Longrightarrow> length b = byteLength t (Some True)"
  by (auto simp: toBuffer_priv_None byteLength_def truthy_def length_allocUnsafe split: if_splits)

section \<open>Serialization for a signature\<close>

text \<open>
  Claim C3 says that whenever the transaction has witnesses, serializing with
  \<^verbatim>\<open>forSignature\<close> replaces each output's value by one zero byte and inserts eight
  zero bytes before the script, in particular on the legacy-sighash path. That path
  (line 449) calls \<^verbatim>\<open>__toBuffer(buffer, 0, false, true, true)\<close> on a buffer of
  \<^verbatim>\<open>__byteLength(false, true) + 4\<close> bytes. On \<open>sig_tx\<close>, which has witnesses, the call
  emits the output's value (the nine bytes after the asset) as stored.
\<close>

theorem legacy_path_keeps_value:
  "hasWitnesses sig_tx \<and>
   byteLength_priv sig_tx (Some False) (Some True) + 4 = 59 \<and>
   toBuffer_priv [] (Some (replicate 59 0)) (Some 0) (Some False) (Some True) (Some True) sig_tx
     = Inr ([2, 0, 0, 0, 0, 1] @ (1 # replicate 32 7) @ [1, 0, 0, 0, 0, 0, 0, 0, 5] @ [0] @ [1, 0x51] @
            [0, 0, 0, 0])"
proof -
  have s: "tx_bytes sig_tx (Some False) (Some True) (Some True)
             = [2, 0, 0, 0, 0, 1] @ (1 # replicate 32 7) @ [1, 0, 0, 0, 0, 0, 0, 0, 5] @ [0] @ [1, 0x51] @
               [0, 0, 0, 0]"
    by (simp add: tx_bytes_def truthy_def sig_tx_def explicit_out_def ins_bytes_def outs_bytes_def
        txOut_bytes_def varslice_def varint_small le_bytes_4)
  have n: "byteLength_priv sig_tx (Some False) (Some True) + 4 = 59"
    by (simp add: byteLength_priv_def truthy_def sig_tx_def explicit_out_def encodingLength_def
        varSliceSize_def)
  have h: "hasWitnesses sig_tx"
    by (simp add: hasWitnesses_def sig_tx_def)
  show ?thesis
    by (simp add: toBuffer_priv_Some s n h)
qed

text \<open>
  Claim C3, amended. For every transaction that has witnesses, serializing with
  \<^verbatim>\<open>forSignature\<close> and \<^verbatim>\<open>_ALLOW_WITNESS\<close> both true into a caller's buffer emits, inside
  each output, one zero byte in place of the value and eight zero bytes before the
  script (\<open>outs_bytes_sig\<close>), with no flag byte and no witness suffix. With
  \<^verbatim>\<open>_ALLOW_WITNESS\<close> false, which is how the legacy-sighash path serializes, each
  output's stored value is emitted and nothing is inserted (\<open>outs_bytes\<close>).
\<close>

theorem toBuffer_for_signature:
  assumes "hasWitnesses t"
  shows "toBuffer_priv junk (Some buf) (Some i) (Some True) fz (Some True) t =
           (let s = le_bytes 4 (unat (version t)) @ ins_bytes t @ outs_bytes_sig t @
                    le_bytes 4 (unat (locktime t))
            in if i + length s \<le> length buf then Inr s else Inl Truncated) \<and>
         toBuffer_priv junk (Some buf) (Some i) (Some False) fz (Some True) t =
           (let s = le_bytes 4 (unat (version t)) @ ins_bytes t @ outs_bytes t @
                    le_bytes 4 (unat (locktime t))
            in if i + length s \<le> length buf then Inr s else Inl Truncated)"
  using assms by (simp add: toBuffer_priv_Some tx_bytes_def truthy_def Let_def)

theorem toBuffer_for_signature_witness:
  "hasWitnesses sig_tx \<and>
   toBuffer_priv [] (Some (replicate 59 0)) (Some 0) (Some True) (Some True) (Some True) sig_tx
     = Inr ([2, 0, 0, 0, 0, 1] @ (1 # replicate 32 7) @ [0] @ [0] @ replicate 8 0 @ [1, 0x51] @
            [0, 0, 0, 0])"
proof -
  have h: "hasWitnesses sig_tx"
    by (simp add: hasWitnesses_def sig_tx_def)
  have s: "le_bytes 4 (unat (version sig_tx)) @ ins_bytes sig_tx @ outs_bytes_sig sig_tx @
           le_bytes 4 (unat (locktime sig_tx))
             = [2, 0, 0, 0, 0, 1] @ (1 # replicate 32 7) @ [0] @ [0] @ replicate 8 0 @ [1, 0x51] @
               [0, 0, 0, 0]"
    by (simp add: sig_tx_def explicit_out_def ins_bytes_def outs_bytes_sig_def
        txOut_bytes_sig_def varslice_def varint_small le_bytes_4)
  from toBuffer_for_signature [OF h, of "[]" "replicate 59 0" 0 "Some True"] h show ?thesis
    unfolding s by (simp add: Let_def)
qed

section \<open>Serialization with the flag forced to zero\<close>

text \<open>
  Claim C5 says that with \<^verbatim>\<open>_ALLOW_WITNESS\<close> and \<^verbatim>\<open>forceZeroFlag\<close> both true a
  transaction with witnesses is written with a zero flag byte and without the
  witness suffix. On \<open>wit_tx\<close> the flag byte (the fifth) is zero and the six bytes of
  the input's confidential fields follow the locktime.
\<close>

theorem force_zero_flag_keeps_suffix:
  "hasWitnesses wit_tx \<and>
   toBuffer_priv [] None None (Some True) (Some True) None wit_tx
     = Inr ([2, 0, 0, 0, 0, 1] @ replicate 32 0 @ [0, 0, 0, 0, 0, 255, 255, 255, 255, 0, 0, 0, 0, 0] @
            [0, 0, 1, 1, 1, 0])"
proof -
  have h: "hasWitnesses wit_tx"
    by (simp add: hasWitnesses_def wit_tx_def wit_in_def)
  have s: "tx_bytes wit_tx (Some True) (Some True) None
             = [2, 0, 0, 0, 0, 1] @ replicate 32 0 @ [0, 0, 0, 0, 0, 255, 255, 255, 255, 0, 0, 0, 0, 0] @
               [0, 0, 1, 1, 1, 0]"
    using h
    by (simp add: tx_bytes_def truthy_def wit_tx_def wit_in_def ins_bytes_def outs_bytes_def
        txIn_bytes_def wire_index_def issuance_bytes_def varslice_Nil varint_small le_bytes_4
        witness_suffix_def inFields_bytes_def vector_bytes_def varslice_def)
  have n: "byteLength_priv wit_tx (Some True) None = 58"
    using h
    by (simp add: byteLength_priv_def truthy_def wit_tx_def wit_in_def encodingLength_def
        varSliceSize_def)
  show ?thesis
    by (simp add: toBuffer_priv_None s n h length_allocUnsafe)
qed

text \<open>
  Claim C5, amended. For every transaction with witnesses, serializing with
  \<^verbatim>\<open>_ALLOW_WITNESS\<close> and \<^verbatim>\<open>forceZeroFlag\<close> both true (and not for a signature) writes
  a zero flag byte after the version, and still appends the witness suffix, the
  per-input then the per-output confidential field groups, after the locktime:
  \<^verbatim>\<open>forceZeroFlag\<close> changes the flag byte only. This holds into a caller's buffer,
  and into the buffer that \<^verbatim>\<open>__toBuffer\<close> allocates when the fixed-size fields have
  the sizes that \<^verbatim>\<open>__byteLength\<close> assumes.
\<close>

theorem toBuffer_force_zero_flag:
  assumes "hasWitnesses t"
  shows "toBuffer_priv junk (Some buf) (Some i) (Some True) (Some True) None t =
           (let s = le_bytes 4 (unat (version t)) @ [0] @ ins_bytes t @ outs_bytes t @
                    le_bytes 4 (unat (locktime t)) @ witness_suffix t
            in if i + length s \<le> length buf then Inr s else Inl Truncated) \<and>
         (list_all sized_in (ins t) \<longrightarrow>
          toBuffer_priv junk None None (Some True) (Some True) None t =
            Inr (le_bytes 4 (unat (version t)) @ [0] @ ins_bytes t @ outs_bytes t @
                 le_bytes 4 (unat (locktime t)) @ witness_suffix t))"
proof -
  have s: "tx_bytes t (Some True) (Some True) None =
             le_bytes 4 (unat (version t)) @ [0] @ ins_bytes t @ outs_bytes t @
             le_bytes 4 (unat (locktime t)) @ witness_suffix t"
    using assms by (simp add: tx_bytes_def truthy_def)
  have "list_all sized_in (ins t) \<Longrightarrow>
        length (tx_bytes t (Some True) (Some True) None) = byteLength_priv t (Some True) None"
    by (rule length_tx_bytes)
  then show ?thesis
    unfolding s [symmetric]
    by (simp add: toBuffer_priv_Some toBuffer_priv_None length_allocUnsafe Let_def)
qed

theorem toBuffer_force_zero_flag_witness:
  "hasWitnesses wit_tx \<and> list_all sized_in (ins wit_tx) \<and>
   toBuffer_priv [] None None (Some True) (Some True) None wit_tx
     = Inr ([2, 0, 0, 0] @ [0] @ (1 # replicate 32 0 @ [0, 0, 0, 0, 0, 255, 255, 255, 255]) @ [0] @
            [0, 0, 0, 0] @ [0, 0, 1, 1, 1, 0])"
proof -
  have h: "hasWitnesses wit_tx"
    by (simp add: hasWitnesses_def wit_tx_def wit_in_def)
  have z: "list_all sized_in (ins wit_tx)"
    by (simp add: sized_in_def wit_tx_def wit_in_def)
  have s: "le_bytes 4 (unat (version wit_tx)) @ [0] @ ins_bytes wit_tx @ outs_bytes wit_tx @
           le_bytes 4 (unat (locktime wit_tx)) @ witness_suffix wit_tx
             = [2, 0, 0, 0] @ [0] @ (1 # replicate 32 0 @ [0, 0, 0, 0, 0, 255, 255, 255, 255]) @ [0] @
               [0, 0, 0, 0] @ [0, 0, 1, 1, 1, 0]"
    by (simp add: wit_tx_def wit_in_def ins_bytes_def outs_bytes_def
        txIn_bytes_def wire_index_def issuance_bytes_def varslice_Nil varint_small le_bytes_4
        witness_suffix_def inFields_bytes_def vector_bytes_def varslice_def)
  from toBuffer_force_zero_flag [OF h, of "[]"] z h show ?thesis
    unfolding s by simp
qed

section \<open>The flag bits of an input through serialization and deserialization\<close>

lemma toBuffer_txIn_eval:
  assumes "off + length (txIn_bytes x) \<le> length buf"
  shows "toBuffer_txIn x \<lparr>BufferWriter.buffer = buf, BufferWriter.offset = off\<rparr> =
           Inr \<lparr>BufferWriter.buffer = take off buf @ txIn_bytes x @ drop (off + length (txIn_bytes x)) buf,
                BufferWriter.offset = off + length (txIn_bytes x)\<rparr>"
proof -
  have "winv \<lparr>BufferWriter.buffer = buf, BufferWriter.offset = off\<rparr>"
    using assms by (simp add: winv_def)
  then show ?thesis
    using is_put_txIn [of x] assms by (simp add: is_put_def writeSlice_def)
qed

lemma le_bytes_4_max: "le_bytes 4 4294967295 = [255, 255, 255, 255]"
  by (simp add: le_bytes_4)

lemma txIn_bytes_max_in: "txIn_bytes max_in = max_in_bytes"
  by (simp add: txIn_bytes_def max_in_def flagged_in_def some_issuance_def max_in_bytes_def
      wire_index_def flag_values issuance_bytes_def varslice_Nil le_bytes_4_max)

lemma length_max_in_bytes: "length max_in_bytes = 115"
  by (simp add: max_in_bytes_def)

text \<open>
  Claim C8 says that every logical index below \<open>2 ^ 30\<close> is preserved with both
  flags, whatever the flags are. The input \<open>max_in\<close> has the logical index
  \<open>2 ^ 30 - 1\<close>, an issuance and the peg-in flag. Its wire index is \<open>0xFFFFFFFF\<close>,
  which \<^verbatim>\<open>fromBuffer\<close> takes for the sentinel: the input read back has the index
  \<open>0xFFFFFFFF\<close>, no peg-in flag and no issuance, and the reader stops after 41 bytes,
  before the issuance.
\<close>

theorem max_index_reads_as_sentinel:
  "index max_in = 0x3FFFFFFF \<and> isPegin max_in \<and> issuance max_in = Some some_issuance \<and>
   toBuffer_txIn max_in \<lparr>BufferWriter.buffer = replicate 115 0, BufferWriter.offset = 0\<rparr>
     = Inr \<lparr>BufferWriter.buffer = max_in_bytes, BufferWriter.offset = 115\<rparr> \<and>
   fromBuffer_txIn \<lparr>BufferReader.buffer = max_in_bytes, BufferReader.offset = 0\<rparr>
     = Inr (max_in\<lparr>index := 0xFFFFFFFF, isPegin := False, issuance := None\<rparr>,
            \<lparr>BufferReader.buffer = max_in_bytes, BufferReader.offset = 41\<rparr>)"
proof -
  let ?r = "\<lparr>BufferReader.buffer = max_in_bytes, BufferReader.offset = 0\<rparr>"
  let ?head = "hash max_in @ le_bytes 4 (unat (wire_index max_in)) @ varslice (Input.script max_in) @
               le_bytes 4 (unat (sequence max_in))"
  have w: "toBuffer_txIn max_in \<lparr>BufferWriter.buffer = replicate 115 0, BufferWriter.offset = 0\<rparr>
             = Inr \<lparr>BufferWriter.buffer = max_in_bytes, BufferWriter.offset = 115\<rparr>"
    using toBuffer_txIn_eval [of 0 max_in "replicate 115 0"]
    by (simp add: txIn_bytes_max_in length_max_in_bytes)
  have s: "wire_index max_in = MINUS_1"
    by (simp add: wire_index_def max_in_def flagged_in_def flag_values MINUS_1_def)
  have "max_in_bytes = ?head @ issuance_bytes (issuance max_in)"
    using txIn_bytes_max_in by (simp add: txIn_bytes_def)
  then have "at ?r (?head @ issuance_bytes (issuance max_in))"
    by (simp add: at_def)
  moreover have "reads fromBuffer_txIn ?head
                   ((bare_txIn max_in)\<lparr>index := MINUS_1, isPegin := False, issuance := None\<rparr>)"
    by (rule reads_txIn_sentinel [OF _ _ s])
       (simp_all add: max_in_def flagged_in_def wf_slice_def fits_def)
  ultimately have "fromBuffer_txIn ?r
      = Inr ((bare_txIn max_in)\<lparr>index := MINUS_1, isPegin := False, issuance := None\<rparr>,
             advance (length ?head) ?r)"
    by (rule readsD [rotated])
  moreover have "length ?head = 41"
    by (simp add: max_in_def flagged_in_def length_le_bytes length_varslice varSliceSize_def
        encodingLength_def)
  ultimately have r: "fromBuffer_txIn ?r
      = Inr (max_in\<lparr>index := 0xFFFFFFFF, isPegin := False, issuance := None\<rparr>,
             \<lparr>BufferReader.buffer = max_in_bytes, BufferReader.offset = 41\<rparr>)"
    by (simp add: advance_def bare_txIn_def max_in_def flagged_in_def MINUS_1_def
        EMPTY_WITNESS_def EMPTY_BUFFER_def)
  show ?thesis
    using w r by (simp add: max_in_def flagged_in_def)
qed

text \<open>
  An input with the sentinel index is written with the wire index \<open>0xFFFFFFFF\<close>
  and, if it has an issuance, with its issuance (lines 940 to 946); \<^verbatim>\<open>fromBuffer\<close>
  reads it back without peg-in flag and without issuance (line 93), and stops
  before the issuance bytes written.
\<close>

lemma txIn_sentinel_read:
  assumes "length (hash x) = 32" and "wf_slice (Input.script x)"
    and "toBuffer_txIn x \<lparr>BufferWriter.buffer = buf, BufferWriter.offset = off\<rparr> = Inr w"
    and "index x = MINUS_1"
  shows "\<exists>x' r. fromBuffer_txIn \<lparr>BufferReader.buffer = BufferWriter.buffer w, BufferReader.offset = off\<rparr>
                  = Inr (x', r) \<and>
                index x' = MINUS_1 \<and> \<not> isPegin x' \<and> issuance x' = None \<and>
                BufferReader.offset r + length (issuance_bytes (issuance x)) = BufferWriter.offset w"
proof -
  let ?r = "\<lparr>BufferReader.buffer = BufferWriter.buffer w, BufferReader.offset = off\<rparr>"
  let ?rest = "drop (off + length (txIn_bytes x)) buf"
  let ?head = "hash x @ le_bytes 4 (unat (wire_index x)) @ varslice (Input.script x) @
               le_bytes 4 (unat (sequence x))"
  note wr = toBuffer_txIn_written [OF assms(3) assms(1)]
  from assms(4) have s: "wire_index x = MINUS_1"
    by (rule wire_index_sentinel)
  have "reads fromBuffer_txIn ?head
          ((bare_txIn x)\<lparr>index := MINUS_1, isPegin := False, issuance := None\<rparr>)"
    using assms(1,2) s by (rule reads_txIn_sentinel)
  moreover have "at ?r (?head @ (issuance_bytes (issuance x) @ ?rest))"
    using wr(2) by (simp add: txIn_bytes_def)
  ultimately have "fromBuffer_txIn ?r
      = Inr ((bare_txIn x)\<lparr>index := MINUS_1, isPegin := False, issuance := None\<rparr>,
             advance (length ?head) ?r)"
    by (rule readsD)
  then show ?thesis
    using wr(1) by (simp add: advance_def txIn_bytes_def)
qed

text \<open>
  Claim C8, amended. Take an input with a 32-byte hash and a script whose length
  fits in a varint, serialized by \<^verbatim>\<open>__toBuffer\<close> at some offset of a buffer and read
  back by \<^verbatim>\<open>fromBuffer\<close> from that offset. If its logical index is below \<open>2 ^ 30\<close>,
  and is not \<open>2 ^ 30 - 1\<close> with both flags set, the input read back has the same
  index, the same peg-in flag and the same issuance, for any combination of the two
  flags, and the reader ends where the writer ended. If its index is the sentinel
  \<open>0xFFFFFFFF\<close> and it has no issuance and no peg-in flag, the input read back has
  the same index, unmasked, the same peg-in flag and the same issuance, that is
  none, and the reader ends where the writer ended.
\<close>

theorem txIn_index_roundtrip:
  assumes "length (hash x) = 32" and "wf_slice (Input.script x)"
    and "toBuffer_txIn x \<lparr>BufferWriter.buffer = buf, BufferWriter.offset = off\<rparr> = Inr w"
  shows "(logical_index x \<and> wf_issuance (issuance x) \<longrightarrow>
            (\<exists>x' r. fromBuffer_txIn \<lparr>BufferReader.buffer = BufferWriter.buffer w, BufferReader.offset = off\<rparr>
                       = Inr (x', r) \<and>
                    index x' = index x \<and> isPegin x' = isPegin x \<and> issuance x' = issuance x \<and>
                    BufferReader.offset r = BufferWriter.offset w)) \<and>
         (index x = MINUS_1 \<and> issuance x = None \<and> \<not> isPegin x \<longrightarrow>
            (\<exists>x' r. fromBuffer_txIn \<lparr>BufferReader.buffer = BufferWriter.buffer w, BufferReader.offset = off\<rparr>
                       = Inr (x', r) \<and>
                    index x' = index x \<and> isPegin x' = isPegin x \<and> issuance x' = issuance x \<and>
                    index x' = 0xFFFFFFFF \<and>
                    BufferReader.offset r = BufferWriter.offset w))"
proof (intro conjI impI)
  let ?r = "\<lparr>BufferReader.buffer = BufferWriter.buffer w, BufferReader.offset = off\<rparr>"
  note wr = toBuffer_txIn_written [OF assms(3) assms(1)]
  {
    assume "logical_index x \<and> wf_issuance (issuance x)"
    then have "reads fromBuffer_txIn (txIn_bytes x) (bare_txIn x)"
      using assms(1,2) by (intro reads_txIn_logical) simp_all
    then have "fromBuffer_txIn ?r = Inr (bare_txIn x, advance (length (txIn_bytes x)) ?r)"
      using wr(2) by (rule readsD)
    then show "\<exists>x' r. fromBuffer_txIn ?r = Inr (x', r) \<and>
                    index x' = index x \<and> isPegin x' = isPegin x \<and> issuance x' = issuance x \<and>
                    BufferReader.offset r = BufferWriter.offset w"
      using wr(1) by (simp add: bare_txIn_def advance_def)
  }
  {
    assume a: "index x = MINUS_1 \<and> issuance x = None \<and> \<not> isPegin x"
    then have "index x = MINUS_1" ..
    with assms obtain x' r where "fromBuffer_txIn ?r = Inr (x', r)"
      "index x' = MINUS_1" "\<not> isPegin x'" "issuance x' = None"
      "BufferReader.offset r + length (issuance_bytes (issuance x)) = BufferWriter.offset w"
      using txIn_sentinel_read [of x buf off w] by blast
    with a show "\<exists>x' r. fromBuffer_txIn ?r = Inr (x', r) \<and>
                    index x' = index x \<and> isPegin x' = isPegin x \<and> issuance x' = issuance x \<and>
                    index x' = 0xFFFFFFFF \<and>
                    BufferReader.offset r = BufferWriter.offset w"
      by (simp add: issuance_bytes_def MINUS_1_def)
  }
qed

theorem txIn_index_roundtrip_witness:
  "(\<exists>w x' r. toBuffer_txIn flagged_in \<lparr>BufferWriter.buffer = replicate 120 0, BufferWriter.offset = 3\<rparr>
                = Inr w \<and>
              fromBuffer_txIn \<lparr>BufferReader.buffer = BufferWriter.buffer w, BufferReader.offset = 3\<rparr>
                = Inr (x', r) \<and>
              index x' = 5 \<and> isPegin x' \<and> issuance x' = Some some_issuance \<and>
              BufferReader.offset r = BufferWriter.offset w) \<and>
   (\<exists>w x' r. toBuffer_txIn coinbase_in \<lparr>BufferWriter.buffer = replicate 120 0, BufferWriter.offset = 3\<rparr>
                = Inr w \<and>
              fromBuffer_txIn \<lparr>BufferReader.buffer = BufferWriter.buffer w, BufferReader.offset = 3\<rparr>
                = Inr (x', r) \<and>
              index x' = 0xFFFFFFFF \<and> \<not> isPegin x' \<and> issuance x' = None \<and>
              BufferReader.offset r = BufferWriter.offset w)"
proof -
  let ?w0 = "\<lparr>BufferWriter.buffer = replicate 120 0, BufferWriter.offset = 3\<rparr>"
  have "3 + length (txIn_bytes flagged_in) \<le> length (replicate 120 (0 :: byte))"
    by (simp add: txIn_bytes_def flagged_in_def some_issuance_def issuance_bytes_def
        length_le_bytes length_varslice varSliceSize_def encodingLength_def)
  then obtain w where w: "toBuffer_txIn flagged_in ?w0 = Inr w"
    using toBuffer_txIn_eval [of 3 flagged_in "replicate 120 0"] by simp
  have "3 + length (txIn_bytes coinbase_in) \<le> length (replicate 120 (0 :: byte))"
    by (simp add: txIn_bytes_def coinbase_in_def issuance_bytes_def
        length_le_bytes length_varslice varSliceSize_def encodingLength_def)
  then obtain v where v: "toBuffer_txIn coinbase_in ?w0 = Inr v"
    using toBuffer_txIn_eval [of 3 coinbase_in "replicate 120 0"] by simp
  have l: "logical_index flagged_in \<and> wf_issuance (issuance flagged_in)"
    by (simp add: logical_index_def wf_issuance_def wf_value_def flagged_in_def some_issuance_def)
  have c: "index coinbase_in = MINUS_1" "issuance coinbase_in = None" "\<not> isPegin coinbase_in"
    by (simp_all add: coinbase_in_def MINUS_1_def)
  have f: "length (hash flagged_in) = 32" "wf_slice (Input.script flagged_in)"
    "index flagged_in = 5" "isPegin flagged_in" "issuance flagged_in = Some some_issuance"
    by (simp_all add: flagged_in_def wf_slice_def fits_def)
  have g: "length (hash coinbase_in) = 32" "wf_slice (Input.script coinbase_in)"
    by (simp_all add: coinbase_in_def wf_slice_def fits_def)
  from txIn_index_roundtrip [OF f(1,2) w] l f(3,4,5) w
  have 1: "\<exists>w x' r. toBuffer_txIn flagged_in ?w0 = Inr w \<and>
              fromBuffer_txIn \<lparr>BufferReader.buffer = BufferWriter.buffer w, BufferReader.offset = 3\<rparr>
                = Inr (x', r) \<and>
              index x' = 5 \<and> isPegin x' \<and> issuance x' = Some some_issuance \<and>
              BufferReader.offset r = BufferWriter.offset w"
    by auto
  from txIn_index_roundtrip [OF g v] c v
  have 2: "\<exists>w x' r. toBuffer_txIn coinbase_in ?w0 = Inr w \<and>
              fromBuffer_txIn \<lparr>BufferReader.buffer = BufferWriter.buffer w, BufferReader.offset = 3\<rparr>
                = Inr (x', r) \<and>
              index x' = 0xFFFFFFFF \<and> \<not> isPegin x' \<and> issuance x' = None \<and>
              BufferReader.offset r = BufferWriter.offset w"
    by (auto simp: MINUS_1_def)
  from 1 2 show ?thesis ..
qed

section \<open>Round trip of a transaction\<close>

text \<open>
  Claim C1 says that \<^verbatim>\<open>fromBuffer(toBuffer(t))\<close> equals \<open>t\<close> in all fields, the flag
  included, for every transaction. The transaction \<open>wit_tx\<close>, as \<^verbatim>\<open>addInput\<close> and
  \<^verbatim>\<open>setWitness\<close> build it, has witnesses and the flag 0. It is serialized with the
  flag byte 1 (the fifth byte), and read back with the flag 1.
\<close>

theorem roundtrip_changes_flag:
  "flag wit_tx = 0 \<and>
   toBuffer [] None None wit_tx = Inr wit_tx_bytes \<and>
   fromBuffer wit_tx_bytes None = Inr (wit_tx\<lparr>flag := 1\<rparr>)"
proof -
  let ?t = "wit_tx\<lparr>flag := 1\<rparr>"
  have h: "hasWitnesses wit_tx" "hasWitnesses ?t"
    by (simp_all add: hasWitnesses_def wit_tx_def wit_in_def)
  have s: "tx_bytes wit_tx (Some True) (Some False) None = wit_tx_bytes"
    using h
    by (simp add: tx_bytes_def truthy_def wit_tx_def wit_in_def ins_bytes_def outs_bytes_def
        txIn_bytes_def wire_index_def issuance_bytes_def varslice_Nil varint_small le_bytes_4
        witness_suffix_def inFields_bytes_def vector_bytes_def varslice_def wit_tx_bytes_def)
  have s': "tx_bytes ?t (Some True) (Some False) None = tx_bytes wit_tx (Some True) (Some False) None"
    using h by (simp add: tx_bytes_def truthy_def ins_bytes_def outs_bytes_def witness_suffix_def)
  have n: "byteLength_priv wit_tx (Some True) None = 58"
    using h
    by (simp add: byteLength_priv_def truthy_def wit_tx_def wit_in_def encodingLength_def
        varSliceSize_def)
  have l: "length wit_tx_bytes = 58"
    by (simp add: wit_tx_bytes_def)
  have w: "toBuffer [] None None wit_tx = Inr wit_tx_bytes"
    by (simp add: toBuffer_def toBuffer_priv_None s n l length_allocUnsafe)
  have "wf_tx ?t"
    using h(2)
    by (simp add: wf_tx_def wf_txIn_def wf_index_def logical_index_def wf_slice_def wf_vector_def
        wf_issuance_def fits_def wit_tx_def wit_in_def MINUS_1_def)
  then have "fromBuffer (tx_bytes ?t (Some True) (Some False) None) None = Inr ?t"
    by (rule fromBuffer_wf)
  then have r: "fromBuffer wit_tx_bytes None = Inr ?t"
    by (simp only: s' s)
  show ?thesis
    using w r by (simp add: wit_tx_def)
qed

text \<open>
  Claim C1, amended. For every wire-encodable transaction \<open>t\<close> (\<open>wf_tx\<close>: lengths that
  fit a varint; 32-byte previous hashes; every input index either a logical index
  below \<open>2 ^ 30\<close>, other than \<open>2 ^ 30 - 1\<close> with both flag bits, or the sentinel
  \<open>0xFFFFFFFF\<close> with no issuance and no peg-in flag; confidential fields and
  issuances with the prefix bytes and widths of section 4.2 of the specification;
  the flag 1 when \<^verbatim>\<open>hasWitnesses()\<close> holds, and otherwise the flag 0 and no witness or
  proof data), \<^verbatim>\<open>toBuffer\<close> returns a buffer and \<^verbatim>\<open>fromBuffer\<close> of that buffer returns a
  transaction equal to \<open>t\<close> in all fields, in strict and non-strict mode.
\<close>

theorem fromBuffer_toBuffer:
  assumes "wf_tx t"
  shows "\<exists>b. toBuffer junk None None t = Inr b \<and> fromBuffer b NO_STRICT = Inr t"
  using toBuffer_wf [OF assms] fromBuffer_wf [OF assms] by simp

theorem fromBuffer_toBuffer_witness:
  "wf_tx full_tx \<and> (\<exists>b. toBuffer [] None None full_tx = Inr b \<and> fromBuffer b None = Inr full_tx)"
proof -
  have h: "hasWitnesses full_tx"
    by (simp add: hasWitnesses_def full_tx_def)
  have "list_all wf_txIn (ins full_tx)"
    by (simp add: full_tx_def flagged_in_def coinbase_in_def some_issuance_def wf_txIn_def
        wf_index_def logical_index_def wf_slice_def wf_vector_def wf_issuance_def wf_value_def
        fits_def MINUS_1_def)
  moreover have "list_all wf_txOut (outs full_tx)"
    by (simp add: full_tx_def explicit_out_def wf_txOut_def wf_asset_def wf_value_def wf_nonce_def
        wf_slice_def fits_def)
  ultimately have w: "wf_tx full_tx"
    using h by (simp add: wf_tx_def fits_def full_tx_def)
  from fromBuffer_toBuffer [OF w, of "[]" None] w show ?thesis
    by simp
qed

section \<open>Rules for computations on the heap\<close>

lemma frame_refl: "frame h h"
  by (simp add: frame_def)

lemma frame_append: "frame h0 h \<Longrightarrow> frame h0 (h @ xs)"
  by (simp add: frame_def)

lemma frame_update: "frame h0 h \<Longrightarrow> length h0 \<le> a \<Longrightarrow> frame h0 (h[a := x])"
  by (simp add: frame_def)

lemma frame_nth: "frame h0 h \<Longrightarrow> a < length h0 \<Longrightarrow> h ! a = h0 ! a"
proof -
  assume f: "frame h0 h" and a: "a < length h0"
  then have "take (length h0) h ! a = h ! a"
    by simp
  with f show ?thesis
    by (simp add: frame_def)
qed

lemma hoareI:
  "(\<And>h. P h \<Longrightarrow> (case m h of (Inl e, h') \<Rightarrow> E h' | (Inr v, h') \<Rightarrow> Q v h')) \<Longrightarrow> hoare P m Q E"
  by (simp add: hoare_def)

lemma hoareD:
  "hoare P m Q E \<Longrightarrow> P h \<Longrightarrow> (case m h of (Inl e, h') \<Rightarrow> E h' | (Inr v, h') \<Rightarrow> Q v h')"
  by (simp add: hoare_def)

lemma hoare_bind:
  assumes "hoare P m R E" and "\<And>v. hoare (R v) (f v) Q E"
  shows "hoare P (hbind m f) Q E"
proof (rule hoareI)
  fix h assume "P h"
  with assms(1) have m: "case m h of (Inl e, h') \<Rightarrow> E h' | (Inr v, h') \<Rightarrow> R v h'"
    by (rule hoareD)
  show "case hbind m f h of (Inl e, h') \<Rightarrow> E h' | (Inr v, h') \<Rightarrow> Q v h'"
  proof (cases "m h")
    case (Pair r h')
    show ?thesis
    proof (cases r)
      case (Inl e)
      with Pair m show ?thesis by (simp add: hbind_def)
    next
      case (Inr v)
      with Pair m have "R v h'" by simp
      with assms(2) [of v] have "case f v h' of (Inl e, h'') \<Rightarrow> E h'' | (Inr u, h'') \<Rightarrow> Q u h''"
        by (rule hoareD)
      with Pair Inr show ?thesis by (simp add: hbind_def)
    qed
  qed
qed

lemma hoare_return: "(\<And>h. P h \<Longrightarrow> Q v h) \<Longrightarrow> hoare P (hreturn v) Q E"
  by (simp add: hoare_def hreturn_def)

lemma hoare_throw: "(\<And>h. P h \<Longrightarrow> E h) \<Longrightarrow> hoare P (hthrow e) Q E"
  by (simp add: hoare_def hthrow_def)

lemma hoare_post:
  assumes "hoare P m Q' E" and "\<And>v h. Q' v h \<Longrightarrow> Q v h"
  shows "hoare P m Q E"
proof (rule hoareI)
  fix h assume "P h"
  with assms(1) have "case m h of (Inl e, h') \<Rightarrow> E h' | (Inr v, h') \<Rightarrow> Q' v h'"
    by (rule hoareD)
  then show "case m h of (Inl e, h') \<Rightarrow> E h' | (Inr v, h') \<Rightarrow> Q v h'"
    using assms(2) by (cases "m h") (auto split: sum.splits)
qed

lemma hoare_gen_asm: "(G \<Longrightarrow> hoare P m Q E) \<Longrightarrow> hoare (\<lambda>h. P h \<and> G) m Q E"
  by (simp add: hoare_def)

lemma hoare_if:
  "(c \<Longrightarrow> hoare P m Q E) \<Longrightarrow> (\<not> c \<Longrightarrow> hoare P m' Q E) \<Longrightarrow> hoare P (if c then m else m') Q E"
  by simp

text \<open>Loops keep an invariant that every iteration keeps.\<close>

lemma hoare_hforEach:
  assumes "\<And>a i. a \<in> set xs \<Longrightarrow> hoare I (f a i) (\<lambda>_. I) E"
  shows "hoare I (hforEach f xs i) (\<lambda>_. I) E"
  using assms
proof (induction xs arbitrary: i)
  case Nil
  show ?case by (simp add: hoare_return)
next
  case (Cons x xs)
  show ?case
    unfolding hforEach.simps
    by (rule hoare_bind [where R = "\<lambda>_. I"]) (simp_all add: Cons)
qed

lemma hoare_hfor:
  assumes "\<And>i. hoare I (f i) (\<lambda>_. I) E"
  shows "hoare I (hfor f is) (\<lambda>_. I) E"
proof (induction "is")
  case Nil
  show ?case by (simp add: hoare_return)
next
  case (Cons i "is")
  show ?case
    unfolding hfor.simps
    by (rule hoare_bind [where R = "\<lambda>_. I"]) (simp_all add: assms Cons)
qed

lemma hoare_hmap:
  assumes "\<And>a. a \<in> set xs \<Longrightarrow> hoare I (f a) (\<lambda>v h. I h \<and> G v) E"
  shows "hoare I (hmap f xs) (\<lambda>vs h. I h \<and> (\<forall>v\<in>set vs. G v)) E"
  using assms
proof (induction xs)
  case Nil
  show ?case by (simp add: hoare_return)
next
  case (Cons x xs)
  have x: "hoare I (f x) (\<lambda>v h. I h \<and> G v) E"
    and xs: "hoare I (hmap f xs) (\<lambda>vs h. I h \<and> (\<forall>v\<in>set vs. G v)) E"
    using Cons by simp_all
  show ?case
    unfolding hmap.simps
  proof (rule hoare_bind [OF x], rule hoare_gen_asm)
    fix v assume v: "G v"
    show "hoare I (hbind (hmap f xs) (\<lambda>ys. hreturn (v # ys))) (\<lambda>vs h. I h \<and> (\<forall>v\<in>set vs. G v)) E"
      by (rule hoare_bind [OF xs], rule hoare_return) (simp add: v)
  qed
qed

section \<open>What the steps of \<^verbatim>\<open>clone\<close> and \<^verbatim>\<open>hashForSignature\<close> keep\<close>

lemma hbind_assoc: "hbind (hbind m f) g = hbind m (\<lambda>v. hbind (f v) g)"
  by (rule ext) (simp add: hbind_def split: prod.splits sum.splits)

lemma hoare_bind2:
  assumes "hoare P (hbind m f) R E" and "\<And>v. hoare (R v) (g v) Q E"
  shows "hoare P (hbind m (\<lambda>a. hbind (f a) g)) Q E"
  unfolding hbind_assoc [symmetric] using assms by (rule hoare_bind)

text \<open>Reads change nothing.\<close>

lemma hoare_get_Transaction: "(\<And>h. P h \<Longrightarrow> E h) \<Longrightarrow> hoare P (get_Transaction a) (\<lambda>_. P) E"
  by (auto simp: hoare_def get_Transaction_def split: obj.splits)

lemma hoare_get_Array: "(\<And>h. P h \<Longrightarrow> E h) \<Longrightarrow> hoare P (get_Array a) (\<lambda>_. P) E"
  by (auto simp: hoare_def get_Array_def split: obj.splits)

text \<open>An allocation extends the heap and returns a reference behind \<open>h0\<close>.\<close>

lemma fresh_tx_frame: "fresh_tx h0 x h \<Longrightarrow> frame h0 h"
  by (simp add: fresh_tx_def)

lemma fresh_tx_append: "fresh_tx h0 x h \<Longrightarrow> fresh_tx h0 x (h @ ys)"
  by (auto simp: fresh_tx_def frame_append nth_append)

lemma hoare_halloc_frame:
  "hoare (frame h0) (halloc x) (\<lambda>a h. frame h0 h \<and> length h0 \<le> a) E"
  by (simp add: hoare_def halloc_def frame_append) (simp add: frame_def)

lemma hoare_new_Transaction: "hoare (frame h0) new_Transaction (fresh_tx h0) E"
  by (auto simp: hoare_def new_Transaction_def hbind_def halloc_def fresh_tx_def frame_append
      nth_append frame_def)

text \<open>Assignments to the fields of the new transaction.\<close>

lemma hoare_set_field:
  assumes "\<And>t. t_ins (f t) = t_ins t" and "\<And>t. t_outs (f t) = t_outs t"
  shows "hoare (fresh_tx h0 x) (set_Transaction x f) (\<lambda>_. fresh_tx h0 x) E"
proof (rule hoareI)
  fix h assume a: "fresh_tx h0 x h"
  then obtain t xs where t: "h ! x = TransactionObj t" and x: "x < length h" "length h0 \<le> x"
    and i: "h ! t_ins t = ArrayObj xs" "\<forall>a\<in>set xs. length h0 \<le> a"
    and r: "length h0 \<le> t_ins t" "t_ins t < length h" "length h0 \<le> t_outs t" "t_outs t < length h"
           "t_ins t \<noteq> t_outs t"
    by (auto simp: fresh_tx_def)
  from t i have ne: "t_ins t \<noteq> x"
    by auto
  have "fresh_tx h0 x (h[x := TransactionObj (f t)])"
    unfolding fresh_tx_def
    using a x i r ne assms by (auto simp: fresh_tx_def frame_update)
  then show "case set_Transaction x f h of (Inl e, h') \<Rightarrow> E h' | (Inr v, h') \<Rightarrow> fresh_tx h0 x h'"
    using t x by (simp add: set_Transaction_def hbind_def get_Transaction_def)
qed

lemma hoare_set_ins:
  assumes "\<forall>e\<in>set es. length h0 \<le> e"
  shows "hoare (fresh_tx h0 x)
           (hbind (halloc (ArrayObj es)) (\<lambda>a. set_Transaction x (\<lambda>n. n\<lparr>t_ins := a\<rparr>)))
           (\<lambda>_. fresh_tx h0 x) E"
proof (rule hoareI)
  fix h assume a: "fresh_tx h0 x h"
  then obtain t where t: "h ! x = TransactionObj t" and x: "x < length h" "length h0 \<le> x"
    and r: "length h0 \<le> t_outs t" "t_outs t < length h"
    by (auto simp: fresh_tx_def)
  let ?h = "(h @ [ArrayObj es])[x := TransactionObj (t\<lparr>t_ins := length h\<rparr>)]"
  have "frame h0 ?h"
    using a x by (simp add: fresh_tx_def frame_append frame_update)
  then have "fresh_tx h0 x ?h"
    unfolding fresh_tx_def
    using x r assms a by (auto simp: nth_append nth_list_update frame_def)
  then show "case hbind (halloc (ArrayObj es)) (\<lambda>a. set_Transaction x (\<lambda>n. n\<lparr>t_ins := a\<rparr>)) h of
               (Inl e, h') \<Rightarrow> E h' | (Inr v, h') \<Rightarrow> fresh_tx h0 x h'"
    using t x by (simp add: set_Transaction_def hbind_def get_Transaction_def halloc_def nth_append)
qed

lemma hoare_set_outs:
  "hoare (fresh_tx h0 x)
     (hbind (halloc (ArrayObj es)) (\<lambda>a. set_Transaction x (\<lambda>n. n\<lparr>t_outs := a\<rparr>)))
     (\<lambda>_. fresh_tx h0 x) E"
proof (rule hoareI)
  fix h assume a: "fresh_tx h0 x h"
  then obtain t xs where t: "h ! x = TransactionObj t" and x: "x < length h" "length h0 \<le> x"
    and i: "h ! t_ins t = ArrayObj xs" "\<forall>a\<in>set xs. length h0 \<le> a"
    and r: "length h0 \<le> t_ins t" "t_ins t < length h"
    by (auto simp: fresh_tx_def)
  from t i have ne: "t_ins t \<noteq> x"
    by auto
  let ?h = "(h @ [ArrayObj es])[x := TransactionObj (t\<lparr>t_outs := length h\<rparr>)]"
  have "frame h0 ?h"
    using a x by (simp add: fresh_tx_def frame_append frame_update)
  then have "fresh_tx h0 x ?h"
    unfolding fresh_tx_def
    using x r i ne a by (auto simp: nth_append nth_list_update frame_def)
  then show "case hbind (halloc (ArrayObj es)) (\<lambda>a. set_Transaction x (\<lambda>n. n\<lparr>t_outs := a\<rparr>)) h of
               (Inl e, h') \<Rightarrow> E h' | (Inr v, h') \<Rightarrow> fresh_tx h0 x h'"
    using t x by (simp add: set_Transaction_def hbind_def get_Transaction_def halloc_def nth_append)
qed

text \<open>The inputs of the new transaction are behind \<open>h0\<close>.\<close>

lemma hoare_get_ins:
  "hoare (fresh_tx h0 x) (hbind (get_Transaction x) (\<lambda>n. get_Array (t_ins n)))
     (\<lambda>xs h. fresh_tx h0 x h \<and> (\<forall>a\<in>set xs. length h0 \<le> a)) E"
  by (auto simp: hoare_def hbind_def get_Transaction_def get_Array_def fresh_tx_def)

text \<open>Assignments to a field of an input behind \<open>h0\<close>, and to the new array of outputs.\<close>

lemma hoare_set_Input:
  assumes "length h0 \<le> a"
  shows "hoare (fresh_tx h0 x) (set_Input a f) (\<lambda>_. fresh_tx h0 x) (frame h0)"
proof (rule hoareI)
  fix h assume p: "fresh_tx h0 x h"
  show "case set_Input a f h of (Inl e, h') \<Rightarrow> frame h0 h' | (Inr v, h') \<Rightarrow> fresh_tx h0 x h'"
  proof (cases "a < length h \<and> (\<exists>i. h ! a = InputObj i)")
    case True
    then obtain i where i: "h ! a = InputObj i" and a: "a < length h"
      by auto
    from p obtain t xs where t: "h ! x = TransactionObj t" and xs: "h ! t_ins t = ArrayObj xs"
      by (auto simp: fresh_tx_def)
    from i t xs have ne: "a \<noteq> x" "a \<noteq> t_ins t"
      by auto
    have "fresh_tx h0 x (h[a := InputObj (f i)])"
      using p ne assms t xs unfolding fresh_tx_def by (auto simp: frame_update)
    then show ?thesis
      using i a by (simp add: set_Input_def hbind_def get_Input_def)
  next
    case False
    then have "set_Input a f h = (Inl TypeError, h)"
      by (auto simp: set_Input_def hbind_def get_Input_def split: obj.splits)
    then show ?thesis
      using p by (simp add: fresh_tx_frame)
  qed
qed

lemma hoare_set_outs_array:
  "hoare (fresh_tx h0 x) (hbind (get_Transaction x) (\<lambda>n. set_Array (t_outs n) f))
     (\<lambda>_. fresh_tx h0 x) (frame h0)"
proof (rule hoareI)
  fix h assume p: "fresh_tx h0 x h"
  then obtain t xs where t: "h ! x = TransactionObj t" and x: "x < length h"
    and xs: "h ! t_ins t = ArrayObj xs" and r: "length h0 \<le> t_outs t" "t_ins t \<noteq> t_outs t"
    by (auto simp: fresh_tx_def)
  let ?m = "hbind (get_Transaction x) (\<lambda>n. set_Array (t_outs n) f)"
  show "case ?m h of (Inl e, h') \<Rightarrow> frame h0 h' | (Inr v, h') \<Rightarrow> fresh_tx h0 x h'"
  proof (cases "t_outs t < length h \<and> (\<exists>ys. h ! t_outs t = ArrayObj ys)")
    case True
    then obtain ys where ys: "h ! t_outs t = ArrayObj ys" and o: "t_outs t < length h"
      by auto
    from ys t have ne: "t_outs t \<noteq> x"
      by auto
    have "fresh_tx h0 x (h[t_outs t := ArrayObj (f ys)])"
      using p ne r t unfolding fresh_tx_def by (auto simp: frame_update)
    then show ?thesis
      using t x ys o by (simp add: set_Array_def hbind_def get_Transaction_def get_Array_def)
  next
    case False
    then have "?m h = (Inl TypeError, h)"
      using t x by (auto simp: set_Array_def hbind_def get_Transaction_def get_Array_def split: obj.splits)
    then show ?thesis
      using p by (simp add: fresh_tx_frame)
  qed
qed

section \<open>\<^verbatim>\<open>clone\<close>\<close>

text \<open>
  What \<^verbatim>\<open>clone\<close> reads of \<open>this\<close> is in \<open>h0\<close>, and is as \<open>tx_in_heap\<close> says where that
  holds; a read only fails where it does not hold.
\<close>

lemma tx_in_heapD:
  assumes "tx_in_heap h this"
  obtains t xs ys where "this < length h" "h ! this = TransactionObj t"
    "t_ins t < length h" "h ! t_ins t = ArrayObj xs" "list_all (is_Input h) xs"
    "t_outs t < length h" "h ! t_outs t = ArrayObj ys" "list_all (is_Output h) ys"
  using assms by (auto simp: tx_in_heap_def split: obj.splits)

lemma hoare_get_this:
  assumes "\<And>h. P h \<Longrightarrow> frame h0 h"
  shows "hoare P (get_Transaction this)
           (\<lambda>v h. P h \<and> (tx_in_heap h0 this \<longrightarrow> h0 ! this = TransactionObj v))
           (\<lambda>h. frame h0 h \<and> \<not> tx_in_heap h0 this)"
proof (rule hoareI)
  fix h assume p: "P h"
  then have f: "frame h0 h"
    by (rule assms)
  have g: "this < length h \<and> h ! this = h0 ! this" if "tx_in_heap h0 this"
    using that f frame_nth [OF f, of this] by (auto simp: tx_in_heap_def frame_def)
  show "case get_Transaction this h of
          (Inl e, h') \<Rightarrow> frame h0 h' \<and> \<not> tx_in_heap h0 this
        | (Inr v, h') \<Rightarrow> P h' \<and> (tx_in_heap h0 this \<longrightarrow> h0 ! this = TransactionObj v)"
  proof (cases "tx_in_heap h0 this")
    case True
    then obtain t where "h0 ! this = TransactionObj t"
      by (rule tx_in_heapD)
    with g [OF True] p show ?thesis
      by (simp add: get_Transaction_def)
  next
    case False
    with p f show ?thesis
      by (simp add: get_Transaction_def split: obj.splits)
  qed
qed

lemma hoare_get_this_ins:
  assumes "\<And>h. P h \<Longrightarrow> frame h0 h" and "tx_in_heap h0 this \<longrightarrow> h0 ! this = TransactionObj t"
  shows "hoare P (get_Array (t_ins t))
           (\<lambda>xs h. P h \<and> (tx_in_heap h0 this \<longrightarrow> list_all (is_Input h0) xs))
           (\<lambda>h. frame h0 h \<and> \<not> tx_in_heap h0 this)"
proof (rule hoareI)
  fix h assume p: "P h"
  then have f: "frame h0 h"
    by (rule assms)
  show "case get_Array (t_ins t) h of
          (Inl e, h') \<Rightarrow> frame h0 h' \<and> \<not> tx_in_heap h0 this
        | (Inr xs, h') \<Rightarrow> P h' \<and> (tx_in_heap h0 this \<longrightarrow> list_all (is_Input h0) xs)"
  proof (cases "tx_in_heap h0 this")
    case True
    then obtain xs where "t_ins t < length h0" "h0 ! t_ins t = ArrayObj xs" "list_all (is_Input h0) xs"
      using assms(2) by (auto elim!: tx_in_heapD)
    moreover from this f have "t_ins t < length h" "h ! t_ins t = h0 ! t_ins t"
      using frame_nth [OF f, of "t_ins t"] by (auto simp: frame_def)
    ultimately show ?thesis
      using p by (simp add: get_Array_def)
  next
    case False
    with p f show ?thesis
      by (simp add: get_Array_def split: obj.splits)
  qed
qed

lemma hoare_get_this_outs:
  assumes "\<And>h. P h \<Longrightarrow> frame h0 h" and "tx_in_heap h0 this \<longrightarrow> h0 ! this = TransactionObj t"
  shows "hoare P (get_Array (t_outs t))
           (\<lambda>xs h. P h \<and> (tx_in_heap h0 this \<longrightarrow> list_all (is_Output h0) xs))
           (\<lambda>h. frame h0 h \<and> \<not> tx_in_heap h0 this)"
proof (rule hoareI)
  fix h assume p: "P h"
  then have f: "frame h0 h"
    by (rule assms)
  show "case get_Array (t_outs t) h of
          (Inl e, h') \<Rightarrow> frame h0 h' \<and> \<not> tx_in_heap h0 this
        | (Inr xs, h') \<Rightarrow> P h' \<and> (tx_in_heap h0 this \<longrightarrow> list_all (is_Output h0) xs)"
  proof (cases "tx_in_heap h0 this")
    case True
    then obtain xs where "t_outs t < length h0" "h0 ! t_outs t = ArrayObj xs" "list_all (is_Output h0) xs"
      using assms(2) by (auto elim!: tx_in_heapD)
    moreover from this f have "t_outs t < length h" "h ! t_outs t = h0 ! t_outs t"
      using frame_nth [OF f, of "t_outs t"] by (auto simp: frame_def)
    ultimately show ?thesis
      using p by (simp add: get_Array_def)
  next
    case False
    with p f show ?thesis
      by (simp add: get_Array_def split: obj.splits)
  qed
qed

text \<open>The copy of an input is a new object; so is the copy of an output.\<close>

lemma hoare_copy_Input:
  assumes "tx_in_heap h0 this \<longrightarrow> is_Input h0 a"
  shows "hoare (fresh_tx h0 x) (hbind (get_Input a) (\<lambda>txIn. halloc (InputObj txIn)))
           (\<lambda>v h. fresh_tx h0 x h \<and> length h0 \<le> v)
           (\<lambda>h. frame h0 h \<and> \<not> tx_in_heap h0 this)"
proof (rule hoareI)
  fix h assume p: "fresh_tx h0 x h"
  then have f: "frame h0 h"
    by (rule fresh_tx_frame)
  have l: "length h0 \<le> length h"
    using f by (simp add: frame_def)
  have "a < length h \<and> (\<exists>i. h ! a = InputObj i)" if "tx_in_heap h0 this"
    using that assms l frame_nth [OF f, of a] by (auto simp: is_Input_def split: obj.splits)
  then show "case hbind (get_Input a) (\<lambda>txIn. halloc (InputObj txIn)) h of
          (Inl e, h') \<Rightarrow> frame h0 h' \<and> \<not> tx_in_heap h0 this
        | (Inr v, h') \<Rightarrow> fresh_tx h0 x h' \<and> length h0 \<le> v"
    using p f l by (auto simp: hbind_def get_Input_def halloc_def fresh_tx_append split: obj.splits)
qed

lemma hoare_copy_Output:
  assumes "tx_in_heap h0 this \<longrightarrow> is_Output h0 a"
  shows "hoare (fresh_tx h0 x) (hbind (get_Output a) (\<lambda>txOut. halloc (OutputObj txOut)))
           (\<lambda>v h. fresh_tx h0 x h \<and> True)
           (\<lambda>h. frame h0 h \<and> \<not> tx_in_heap h0 this)"
proof (rule hoareI)
  fix h assume p: "fresh_tx h0 x h"
  then have f: "frame h0 h"
    by (rule fresh_tx_frame)
  have l: "length h0 \<le> length h"
    using f by (simp add: frame_def)
  have "a < length h \<and> (\<exists>i. h ! a = OutputObj i)" if "tx_in_heap h0 this"
    using that assms l frame_nth [OF f, of a] by (auto simp: is_Output_def split: obj.splits)
  then show "case hbind (get_Output a) (\<lambda>txOut. halloc (OutputObj txOut)) h of
          (Inl e, h') \<Rightarrow> frame h0 h' \<and> \<not> tx_in_heap h0 this
        | (Inr v, h') \<Rightarrow> fresh_tx h0 x h' \<and> True"
    using p f l by (auto simp: hbind_def get_Output_def halloc_def fresh_tx_append split: obj.splits)
qed

lemma hoare_set_version:
  "hoare (fresh_tx h0 x) (set_Transaction x (\<lambda>n. n\<lparr>t_version := v\<rparr>)) (\<lambda>_. fresh_tx h0 x) E"
  by (rule hoare_set_field) simp_all

lemma hoare_set_locktime:
  "hoare (fresh_tx h0 x) (set_Transaction x (\<lambda>n. n\<lparr>t_locktime := v\<rparr>)) (\<lambda>_. fresh_tx h0 x) E"
  by (rule hoare_set_field) simp_all

lemma hoare_set_flag:
  "hoare (fresh_tx h0 x) (set_Transaction x (\<lambda>n. n\<lparr>t_flag := v\<rparr>)) (\<lambda>_. fresh_tx h0 x) E"
  by (rule hoare_set_field) simp_all

text \<open>
  \<^verbatim>\<open>clone\<close> returns a transaction allocated behind \<open>h0\<close> and writes nothing of \<open>h0\<close>;
  it only throws where \<open>this\<close> is not a transaction of \<open>h0\<close>.
\<close>

lemma hoare_clone:
  "hoare (frame h0) (clone this) (fresh_tx h0) (\<lambda>h. frame h0 h \<and> \<not> tx_in_heap h0 this)"
  unfolding clone_def
  apply (rule hoare_bind [OF hoare_new_Transaction])
  apply (rule hoare_bind [OF hoare_get_this [OF fresh_tx_frame]], assumption)
  apply (rule hoare_gen_asm)
  apply (rule hoare_bind [OF hoare_set_version])
  apply (rule hoare_bind [OF hoare_get_this [OF fresh_tx_frame]], assumption)
  apply (rule hoare_gen_asm)
  apply (rule hoare_bind [OF hoare_set_locktime])
  apply (rule hoare_bind [OF hoare_get_this [OF fresh_tx_frame]], assumption)
  apply (rule hoare_gen_asm)
  apply (rule hoare_bind [OF hoare_set_flag])
  apply (rule hoare_bind [OF hoare_get_this [OF fresh_tx_frame]], assumption)
  apply (rule hoare_gen_asm)
  apply (rule hoare_bind [OF hoare_get_this_ins [OF fresh_tx_frame]], assumption, assumption)
  apply (rule hoare_gen_asm)
  apply (rule hoare_bind [OF hoare_hmap [OF hoare_copy_Input]])
   apply (simp add: list_all_iff)
  apply (rule hoare_gen_asm)
  apply (rule hoare_bind2 [OF hoare_set_ins], assumption)
  apply (rule hoare_bind [OF hoare_get_this [OF fresh_tx_frame]], assumption)
  apply (rule hoare_gen_asm)
  apply (rule hoare_bind [OF hoare_get_this_outs [OF fresh_tx_frame]], assumption, assumption)
  apply (rule hoare_gen_asm)
  apply (rule hoare_bind [OF hoare_hmap [OF hoare_copy_Output]])
   apply (simp add: list_all_iff)
  apply (rule hoare_gen_asm)
  apply (rule hoare_bind2 [OF hoare_set_outs])
  apply (rule hoare_return)
  apply assumption
  done

section \<open>The mutations of \<^verbatim>\<open>hashForSignature\<close>\<close>

text \<open>
  Every mutation is of the transaction \<^verbatim>\<open>txTmp\<close>, of one of its two arrays or of one
  of its inputs, all allocated behind \<open>h0\<close>; where one throws, \<open>h0\<close> is still intact.
\<close>

lemma hoare_err:
  assumes "hoare P m Q E'" and "\<And>h. E' h \<Longrightarrow> E h"
  shows "hoare P m Q E"
proof (rule hoareI)
  fix h assume "P h"
  with assms(1) have "case m h of (Inl e, h') \<Rightarrow> E' h' | (Inr v, h') \<Rightarrow> Q v h'"
    by (rule hoareD)
  with assms(2) show "case m h of (Inl e, h') \<Rightarrow> E h' | (Inr v, h') \<Rightarrow> Q v h'"
    by (auto split: prod.splits sum.splits)
qed

lemma hoare_case_list:
  assumes "xs = [] \<Longrightarrow> hoare P a Q E" and "\<And>y ys. xs = y # ys \<Longrightarrow> hoare P (b y ys) Q E"
  shows "hoare P (case xs of [] \<Rightarrow> a | y # ys \<Rightarrow> b y ys) Q E"
  using assms by (cases xs) simp_all

lemma hoare_zero_sequences:
  "hoare (fresh_tx h0 x) (zero_sequences x inIndex) (\<lambda>_. fresh_tx h0 x) (frame h0)"
  unfolding zero_sequences_def
  apply (rule hoare_bind2 [OF hoare_get_ins])
  apply (rule hoare_gen_asm)
  apply (rule hoare_hforEach)
  apply (rule hoare_if)
   apply (rule hoare_return, assumption)
  apply (rule hoare_set_Input)
  apply simp
  done

lemma hoare_sighash_none:
  "hoare (fresh_tx h0 x) (sighash_none x inIndex) (\<lambda>_. fresh_tx h0 x) (frame h0)"
  unfolding sighash_none_def
  apply (rule hoare_bind2 [OF hoare_set_outs])
  apply (rule hoare_zero_sequences)
  done

lemma hoare_sighash_single:
  "hoare (fresh_tx h0 x) (sighash_single this x inIndex) (\<lambda>_. fresh_tx h0 x) (frame h0)"
  unfolding sighash_single_def
  apply (rule hoare_bind [OF hoare_get_Transaction], erule fresh_tx_frame)
  apply (rule hoare_bind [OF hoare_get_Array], erule fresh_tx_frame)
  apply (rule hoare_if)
   apply (rule hoare_return, assumption)
  apply (rule hoare_bind2 [OF hoare_set_outs_array])
  apply (rule hoare_bind [OF hoare_hfor [OF hoare_set_outs_array]])
  apply (rule hoare_bind [OF hoare_zero_sequences])
  apply (rule hoare_return, assumption)
  done

lemma hoare_sighash_anyonecanpay:
  "hoare (fresh_tx h0 x) (sighash_anyonecanpay x inIndex ourScript) (\<lambda>_. fresh_tx h0 x) (frame h0)"
  unfolding sighash_anyonecanpay_def
  apply (rule hoare_bind2 [OF hoare_get_ins])
  apply (rule hoare_gen_asm)
  apply (rule hoare_bind2 [OF hoare_set_ins])
   apply simp
  apply (rule hoare_bind2 [OF hoare_get_ins])
  apply (rule hoare_gen_asm)
  apply (rule hoare_case_list)
   apply (rule hoare_throw, erule fresh_tx_frame)
  apply (rule hoare_set_Input, simp)
  done

lemma hoare_sighash_all_inputs:
  "hoare (fresh_tx h0 x) (sighash_all_inputs x inIndex ourScript) (\<lambda>_. fresh_tx h0 x) (frame h0)"
  unfolding sighash_all_inputs_def
  apply (rule hoare_bind2 [OF hoare_get_ins])
  apply (rule hoare_gen_asm)
  apply (rule hoare_bind [OF hoare_hforEach [OF hoare_set_Input]])
   apply simp
  apply (rule hoare_bind2 [OF hoare_get_ins])
  apply (rule hoare_gen_asm)
  apply (rule hoare_if)
   apply (rule hoare_set_Input, simp)
  apply (rule hoare_throw, erule fresh_tx_frame)
  done

lemma serialize_and_hash_heap: "snd (serialize_and_hash hash256 junk x hashType h) = h"
  by (simp add: serialize_and_hash_def Let_def split: sum.splits)

lemma hoare_serialize_and_hash:
  "hoare (fresh_tx h0 x) (serialize_and_hash hash256 junk x hashType) (\<lambda>_. frame h0) (frame h0)"
proof (rule hoareI)
  fix h assume "fresh_tx h0 x h"
  then have "frame h0 (snd (serialize_and_hash hash256 junk x hashType h))"
    by (simp add: serialize_and_hash_heap fresh_tx_frame)
  then show "case serialize_and_hash hash256 junk x hashType h of
               (Inl e, h') \<Rightarrow> frame h0 h' | (Inr v, h') \<Rightarrow> frame h0 h'"
    by (auto split: prod.splits sum.splits)
qed

lemma hoare_hashForSignature:
  "hoare (frame h0) (hashForSignature decompile compile hash256 junk this inIndex prevOutScript hashType)
     (\<lambda>_. frame h0) (frame h0)"
  unfolding hashForSignature_def
  apply (rule hoare_bind [OF hoare_get_Transaction], assumption)
  apply (rule hoare_bind [OF hoare_get_Array], assumption)
  apply (rule hoare_if)
   apply (rule hoare_return, assumption)
  apply (rule hoare_bind [where R = "\<lambda>_. frame h0"])
   apply (cases "decompile prevOutScript")
    apply (simp, rule hoare_throw, assumption)
   apply (simp, rule hoare_post [OF hoare_halloc_frame], simp)
  apply (rule hoare_bind [OF hoare_err [OF hoare_clone]], simp)
  apply (rule hoare_bind [where R = "\<lambda>_. fresh_tx h0 _"])
   apply (rule hoare_if)
    apply (rule hoare_bind [OF hoare_sighash_none])
    apply (rule hoare_return, assumption)
   apply (rule hoare_if)
    apply (rule hoare_sighash_single)
   apply (rule hoare_return, assumption)
  apply (rule hoare_if)
   apply (rule hoare_return, erule fresh_tx_frame)
  apply (rule hoare_bind [where R = "\<lambda>_. fresh_tx h0 _"])
   apply (rule hoare_if)
    apply (rule hoare_sighash_anyonecanpay)
   apply (rule hoare_sighash_all_inputs)
  apply (rule hoare_serialize_and_hash)
  done

text \<open>
  On the example heap, signing input 0 with \<^verbatim>\<open>SIGHASH_NONE\<close> allocates the script, the
  clone with its arrays, inputs and output, and the empty array of outputs; the
  clone's inputs get the scripts, and its input 1 the sequence 0.
\<close>

lemma hashForSignature_example:
  "snd (hashForSignature (\<lambda>b. Some [Push b]) (\<lambda>cs. []) (\<lambda>b. b) [] 16 0 [0x51] SIGHASH_NONE ex_heap)
     = ex_heap @
       [BufferObj [], ArrayObj [], ArrayObj [],
        TransactionObj \<lparr>t_version = 2, t_locktime = 0, t_flag = 0, t_ins = 23, t_outs = 26\<rparr>,
        InputObj (ex_input\<lparr>r_script := 17\<rparr>),
        InputObj (ex_input\<lparr>r_index := 1, r_script := EMPTY_BUFFER_at, r_sequence := 0\<rparr>),
        ArrayObj [21, 22], OutputObj ex_output, ArrayObj [24], ArrayObj []]"
  by (simp add: hashForSignature_def clone_def new_Transaction_def sighash_none_def
      zero_sequences_def sighash_all_inputs_def serialize_and_hash_heap
      hbind_def hreturn_def halloc_def get_Transaction_def get_Array_def get_Input_def
      get_Output_def set_Transaction_def set_Input_def
      ex_heap_def module_heap_def SIGHASH_NONE_def SIGHASH_ANYONECANPAY_def OP_CODESEPARATOR_def
      nth_append)

text \<open>
  Claim C9. Whatever the transaction behind \<open>this\<close> and whatever the arguments,
  \<^verbatim>\<open>hashForSignature\<close> leaves every object that was in the heap before the call as it
  was, whether it returns or throws: the heap after the call is the heap before
  it, followed by the objects allocated during the call. The transaction, its two
  arrays, its inputs and outputs and their buffers are among the objects of the
  heap before the call, so none of them is changed; the clone shares the buffers,
  and only its own arrays and inputs are assigned to.
\<close>

theorem hashForSignature_frame:
  "length h \<le> length (snd (hashForSignature decompile compile hash256 junk this inIndex prevOutScript hashType h)) \<and>
   take (length h) (snd (hashForSignature decompile compile hash256 junk this inIndex prevOutScript hashType h)) = h"
proof -
  let ?m = "hashForSignature decompile compile hash256 junk this inIndex prevOutScript hashType"
  have "case ?m h of (Inl e, h') \<Rightarrow> frame h h' | (Inr v, h') \<Rightarrow> frame h h'"
    by (rule hoareD [OF hoare_hashForSignature frame_refl])
  then have "frame h (snd (?m h))"
    by (simp split: prod.splits sum.splits)
  then show ?thesis
    by (simp add: frame_def)
qed

section \<open>The sentinel of \<^verbatim>\<open>hashForSignature\<close>\<close>

lemma tx_in_heap_frame:
  assumes "tx_in_heap h this" and "frame h h'"
  shows "tx_in_heap h' this \<and> ins_of h' this = ins_of h this \<and> outs_of h' this = outs_of h this"
proof -
  from assms(1) obtain t xs ys where t: "this < length h" "h ! this = TransactionObj t"
    and i: "t_ins t < length h" "h ! t_ins t = ArrayObj xs" "list_all (is_Input h) xs"
    and o: "t_outs t < length h" "h ! t_outs t = ArrayObj ys" "list_all (is_Output h) ys"
    by (rule tx_in_heapD)
  have l: "length h \<le> length h'"
    using assms(2) by (simp add: frame_def)
  have n: "h' ! a = h ! a" if "a < length h" for a
    using assms(2) that by (rule frame_nth)
  have "is_Input h' a" if "is_Input h a" for a
    using that l n [of a] by (simp add: is_Input_def)
  then have xs: "list_all (is_Input h') xs"
    using i(3) by (simp add: list_all_iff)
  have "is_Output h' a" if "is_Output h a" for a
    using that l n [of a] by (simp add: is_Output_def)
  then have ys: "list_all (is_Output h') ys"
    using o(3) by (simp add: list_all_iff)
  show ?thesis
    using t i(1,2) o(1,2) xs ys l n [of this] n [of "t_ins t"] n [of "t_outs t"]
    by (simp add: tx_in_heap_def ins_of_def outs_of_def)
qed

lemma get_this:
  assumes "tx_in_heap h this"
  obtains t where "get_Transaction this h = (Inr t, h)"
    "get_Array (t_ins t) h = (Inr (ins_of h this), h)"
    "get_Array (t_outs t) h = (Inr (outs_of h this), h)"
proof -
  from assms obtain t xs ys where "this < length h" "h ! this = TransactionObj t"
    "t_ins t < length h" "h ! t_ins t = ArrayObj xs" "t_outs t < length h" "h ! t_outs t = ArrayObj ys"
    by (rule tx_in_heapD)
  then have "get_Transaction this h = (Inr t, h)"
    "get_Array (t_ins t) h = (Inr (ins_of h this), h)"
    "get_Array (t_outs t) h = (Inr (outs_of h this), h)"
    by (simp_all add: get_Transaction_def get_Array_def ins_of_def outs_of_def)
  then show thesis
    by (rule that)
qed

lemma hashForSignature_no_input:
  assumes "tx_in_heap h this" and "length (ins_of h this) \<le> inIndex"
  shows "hashForSignature decompile compile hash256 junk this inIndex prevOutScript hashType h = (Inr ONE, h)"
proof -
  from assms(1) obtain t where "get_Transaction this h = (Inr t, h)"
    "get_Array (t_ins t) h = (Inr (ins_of h this), h)"
    by (rule get_this)
  then show ?thesis
    using assms(2) by (simp add: hashForSignature_def hbind_def hreturn_def)
qed

lemma sighash_single_no_output:
  assumes "tx_in_heap h this" and "length (outs_of h this) \<le> inIndex"
  shows "sighash_single this x inIndex h = (Inr True, h)"
proof -
  from assms(1) obtain t where "get_Transaction this h = (Inr t, h)"
    "get_Array (t_outs t) h = (Inr (outs_of h this), h)"
    by (rule get_this)
  then show ?thesis
    using assms(2) by (simp add: sighash_single_def hbind_def hreturn_def)
qed

lemma clone_returns:
  assumes "tx_in_heap h this"
  obtains x h' where "clone this h = (Inr x, h')" "frame h h'"
proof -
  have "case clone this h of
          (Inl e, h') \<Rightarrow> frame h h' \<and> \<not> tx_in_heap h this | (Inr x, h') \<Rightarrow> fresh_tx h x h'"
    by (rule hoareD [OF hoare_clone frame_refl])
  with assms obtain x h' where "clone this h = (Inr x, h')" "fresh_tx h x h'"
    by (auto split: prod.splits sum.splits)
  then show thesis
    by (auto intro: that fresh_tx_frame)
qed

lemma hashForSignature_no_output:
  assumes wf: "tx_in_heap h this" and single: "hashType AND 0x1f = SIGHASH_SINGLE"
    and out: "length (outs_of h this) \<le> inIndex" and script: "decompile prevOutScript = Some chunks"
  shows "fst (hashForSignature decompile compile hash256 junk this inIndex prevOutScript hashType h) = Inr ONE"
proof (cases "length (ins_of h this) \<le> inIndex")
  case True
  with wf show ?thesis
    by (simp add: hashForSignature_no_input)
next
  case False
  let ?h1 = "h @ [BufferObj (compile (filter (\<lambda>x. x \<noteq> OP_CODESEPARATOR) chunks))]"
  from wf obtain t where t: "get_Transaction this h = (Inr t, h)"
    "get_Array (t_ins t) h = (Inr (ins_of h this), h)"
    by (rule get_this)
  have 1: "tx_in_heap ?h1 this \<and> ins_of ?h1 this = ins_of h this \<and> outs_of ?h1 this = outs_of h this"
    using wf by (rule tx_in_heap_frame) (simp add: frame_append frame_refl)
  then obtain x h2 where c: "clone this ?h1 = (Inr x, h2)" and f: "frame ?h1 h2"
    by (auto elim: clone_returns)
  from 1 have "tx_in_heap ?h1 this" ..
  then have 2: "tx_in_heap h2 this \<and> ins_of h2 this = ins_of ?h1 this \<and> outs_of h2 this = outs_of ?h1 this"
    using f by (rule tx_in_heap_frame)
  with 1 out have s: "sighash_single this x inIndex h2 = (Inr True, h2)"
    by (simp add: sighash_single_no_output)
  have n: "hashType AND 0x1f \<noteq> SIGHASH_NONE"
    using single by (simp add: SIGHASH_NONE_def SIGHASH_SINGLE_def)
  show ?thesis
    using False t script c s n single
    by (simp add: hashForSignature_def hbind_def hreturn_def halloc_def)
qed

lemma hashForSignature_null:
  assumes "tx_in_heap h this" and "inIndex < length (ins_of h this)"
    and "decompile prevOutScript = None"
  shows "hashForSignature decompile compile hash256 junk this inIndex prevOutScript hashType h
           = (Inl TypeError, h)"
proof -
  from assms(1) obtain t where "get_Transaction this h = (Inr t, h)"
    "get_Array (t_ins t) h = (Inr (ins_of h this), h)"
    by (rule get_this)
  then show ?thesis
    using assms(2,3) by (simp add: hashForSignature_def hbind_def hthrow_def)
qed

lemma ex_heap_tx:
  "tx_in_heap ex_heap 16" "ins_of ex_heap 16 = [8, 9]" "outs_of ex_heap 16 = [14]"
  by (simp_all add: tx_in_heap_def ins_of_def outs_of_def ex_heap_def module_heap_def
      is_Input_def is_Output_def)

text \<open>
  Claim C6 says that \<^verbatim>\<open>hashForSignature\<close> returns \<open>ONE\<close> and throws nothing whenever the
  low five bits of \<open>hashType\<close> are \<^verbatim>\<open>SIGHASH_SINGLE\<close> and \<open>inIndex\<close> is not below the
  number of outputs. The transaction of \<open>ex_heap\<close> has two inputs and one output.
  For its input 1 and the hash type 3, with a script codec that returns \<^verbatim>\<open>null\<close> on
  the previous output script, the call throws a \<^verbatim>\<open>TypeError\<close>: the script is
  decompiled and filtered (lines 390 to 394) before the outputs are counted
  (line 412).
\<close>

theorem hashForSignature_null_script:
  "tx_in_heap ex_heap 16 \<and> length (ins_of ex_heap 16) = 2 \<and> length (outs_of ex_heap 16) = 1 \<and>
   (3 :: u32) AND 0x1f = SIGHASH_SINGLE \<and>
   hashForSignature (\<lambda>b. if b = [0x4c] then None else Some [Push b]) (\<lambda>cs. []) (\<lambda>b. b) []
       16 1 [0x4c] 3 ex_heap
     = (Inl TypeError, ex_heap)"
proof -
  have "hashForSignature (\<lambda>b. if b = [0x4c] then None else Some [Push b]) (\<lambda>cs. []) (\<lambda>b. b) []
          16 1 [0x4c] 3 ex_heap = (Inl TypeError, ex_heap)"
    by (rule hashForSignature_null) (simp_all add: ex_heap_tx)
  then show ?thesis
    by (simp add: ex_heap_tx SIGHASH_SINGLE_def)
qed

text \<open>
  Claim C6, amended. On a transaction of the heap, \<^verbatim>\<open>hashForSignature\<close> returns \<open>ONE\<close>,
  31 zero bytes followed by 1, and throws nothing, when \<open>inIndex\<close> is not below the
  number of inputs; the heap is then as it was. It also returns \<open>ONE\<close> and throws
  nothing when the low five bits of \<open>hashType\<close> are \<^verbatim>\<open>SIGHASH_SINGLE\<close> and \<open>inIndex\<close> is
  not below the number of outputs, for a previous output script that the script
  codec decompiles. When \<open>inIndex\<close> is below the number of inputs and the codec
  returns \<^verbatim>\<open>null\<close> on the previous output script, it throws a \<^verbatim>\<open>TypeError\<close>, whatever
  the hash type and the number of outputs.
\<close>

theorem hashForSignature_sentinel:
  assumes "tx_in_heap h this"
  shows "(length (ins_of h this) \<le> inIndex \<longrightarrow>
            hashForSignature decompile compile hash256 junk this inIndex prevOutScript hashType h
              = (Inr (replicate 31 0 @ [1]), h)) \<and>
         (hashType AND 0x1f = SIGHASH_SINGLE \<and> length (outs_of h this) \<le> inIndex \<and>
          decompile prevOutScript \<noteq> None \<longrightarrow>
            fst (hashForSignature decompile compile hash256 junk this inIndex prevOutScript hashType h)
              = Inr (replicate 31 0 @ [1])) \<and>
         (inIndex < length (ins_of h this) \<and> decompile prevOutScript = None \<longrightarrow>
            hashForSignature decompile compile hash256 junk this inIndex prevOutScript hashType h
              = (Inl TypeError, h))"
  using assms hashForSignature_no_input [of h this inIndex decompile compile hash256 junk prevOutScript hashType]
    hashForSignature_no_output [of h this hashType inIndex decompile prevOutScript _ compile hash256 junk]
    hashForSignature_null [of h this inIndex decompile prevOutScript compile hash256 junk hashType]
  by (auto simp: ONE_def)

theorem hashForSignature_sentinel_witness:
  "tx_in_heap ex_heap 16 \<and> length (ins_of ex_heap 16) = 2 \<and> length (outs_of ex_heap 16) = 1 \<and>
   hashForSignature (\<lambda>b. Some (map Push [b])) (\<lambda>cs. []) (\<lambda>b. b) [] 16 2 [0x51] 1 ex_heap
     = (Inr (replicate 31 0 @ [1]), ex_heap) \<and>
   fst (hashForSignature (\<lambda>b. Some (map Push [b])) (\<lambda>cs. []) (\<lambda>b. b) [] 16 1 [0x51] 3 ex_heap)
     = Inr (replicate 31 0 @ [1]) \<and>
   hashForSignature (\<lambda>b. None) (\<lambda>cs. []) (\<lambda>b. b) [] 16 0 [0x51] 1 ex_heap
     = (Inl TypeError, ex_heap)"
proof -
  note wf = ex_heap_tx(1)
  show ?thesis
    using hashForSignature_sentinel [OF wf, of 2 "\<lambda>b. Some (map Push [b])" "\<lambda>cs. []" "\<lambda>b. b" "[]" "[0x51]" 1]
      hashForSignature_sentinel [OF wf, of 1 "\<lambda>b. Some (map Push [b])" "\<lambda>cs. []" "\<lambda>b. b" "[]" "[0x51]" 3]
      hashForSignature_sentinel [OF wf, of 0 "\<lambda>b. None" "\<lambda>cs. []" "\<lambda>b. b" "[]" "[0x51]" 1]
      wf
    by (simp add: ex_heap_tx SIGHASH_SINGLE_def)
qed

section \<open>The test of \<^verbatim>\<open>hashForWitnessV1\<close> on its companion arrays\<close>

text \<open>
  Claim C4 says that \<^verbatim>\<open>hashForWitnessV1\<close> fails with \<open>MismatchedPrevouts\<close> whenever
  \<open>prevOutScripts\<close> or \<open>prevoutAssetsValues\<close> has a length other than the number of
  inputs. The function fails so exactly when the length of \<open>prevOutScripts\<close> differs:
  the length of \<open>prevoutAssetsValues\<close> is never tested, although the message of the
  error asks for a script and a value for all inputs. On \<open>wit_tx\<close>, which has one
  input, with one script and no asset and value at all, it returns a digest.
\<close>

theorem hashForWitnessV1_tests_scripts_only:
  "(hashForWitnessV1 sha256 taggedHash t inIndex prevOutScripts prevoutAssetsValues hashType
      genesisBlockHash leafHash annex = Inl MismatchedPrevouts)
     = (length prevOutScripts \<noteq> length (ins t)) \<and>
   length (ins wit_tx) = 1 \<and> length [[0x51 :: byte]] = 1 \<and> length ([] :: (Buffer \<times> Buffer) list) = 0 \<and>
   hashForWitnessV1 sha256 taggedHash wit_tx 0 [[0x51]] [] SIGHASH_DEFAULT genesisBlockHash None None
     = Inr (taggedHash ''TapSighash/elements''
         (genesisBlockHash @ genesisBlockHash @ [0] @ [2, 0, 0, 0] @ [0, 0, 0, 0] @
          sha256 [0] @ sha256 (replicate 32 0 @ [0, 0, 0, 0]) @ sha256 [] @ sha256 [1, 0x51] @
          sha256 [255, 255, 255, 255] @ sha256 [0] @ sha256 [0, 0] @
          sha256 [] @ sha256 [] @ [0] @ [0, 0, 0, 0]))"
proof -
  have 1: "(hashForWitnessV1 sha256 taggedHash t inIndex prevOutScripts prevoutAssetsValues hashType
              genesisBlockHash leafHash annex = Inl MismatchedPrevouts)
             = (length prevOutScripts \<noteq> length (ins t))"
    by (simp add: hashForWitnessV1_def Let_def getPrevoutScriptsSHA256_def inputPartSize_def
        split: sum.splits)
  have 2: "hashForWitnessV1 sha256 taggedHash wit_tx 0 [[0x51]] [] SIGHASH_DEFAULT genesisBlockHash None None
     = Inr (taggedHash ''TapSighash/elements''
         (genesisBlockHash @ genesisBlockHash @ [0] @ [2, 0, 0, 0] @ [0, 0, 0, 0] @
          sha256 [0] @ sha256 (replicate 32 0 @ [0, 0, 0, 0]) @ sha256 [] @ sha256 [1, 0x51] @
          sha256 [255, 255, 255, 255] @ sha256 [0] @ sha256 [0, 0] @
          sha256 [] @ sha256 [] @ [0] @ [0, 0, 0, 0]))"
    by (simp add: hashForWitnessV1_def Let_def getPrevoutScriptsSHA256_def inputPartSize_def
        SIGHASH_DEFAULT_def SIGHASH_ALL_def SIGHASH_NONE_def SIGHASH_SINGLE_def
        SIGHASH_INPUT_MASK_def SIGHASH_ANYONECANPAY_def EMPTY_BUFFER_def
        wit_tx_def wit_in_def input_part_def
        getOutpointFlagsSHA256_def getInputFlag_def getPrevoutsSHA256_def
        getSpentAssetsAmountsSHA256_def getSequenceSHA256_def getIssuanceSHA256_def
        issuance_fields_def getIssuanceProofsSHA256_def getOutputsSHA256_def
        getOutputWitnessesSHA256_def varslice_def varint_small le_bytes_1 le_bytes_4)
  show ?thesis
    using 1 2 by (simp add: wit_tx_def)
qed

end
